theory Spec2Isabelle
  imports Main "HOL-Library.Sublist"
begin

section \<open>JavaScript values\<close>

text \<open>
  The server handles whatever \<^verbatim>\<open>JSON.parse\<close> makes of an upstream body, so the
  model works on untyped values. A number is an integer (pixel sizes, ids and counts
  are; fractions are outside the model, and the arithmetic is exact, as that of doubles
  is below \<open>2 ^ 53\<close>), an object is the list of its own properties
  in the order \<^verbatim>\<open>Object.entries\<close> enumerates them, with distinct keys.
  \<open>JUndefined\<close> is what reading a missing property gives.
\<close>

datatype jsval =
    JUndefined
  | JNull
  | JBool bool
  | JNum int
  | JStr string
  | JArr "jsval list"
  | JObj "(string \<times> jsval) list"

text \<open>Truthiness, as \<^verbatim>\<open>!v\<close>, \<^verbatim>\<open>a || b\<close> and \<^verbatim>\<open>if (v)\<close> test it.\<close>

fun truthy :: "jsval \<Rightarrow> bool" where
  "truthy JUndefined = False"
| "truthy JNull = False"
| "truthy (JBool b) = b"
| "truthy (JNum n) = (n \<noteq> 0)"
| "truthy (JStr s) = (s \<noteq> [])"
| "truthy (JArr xs) = True"
| "truthy (JObj ps) = True"

definition js_or :: "jsval \<Rightarrow> jsval \<Rightarrow> jsval" where
  "js_or a b = (if truthy a then a else b)"

fun typeof :: "jsval \<Rightarrow> string" where
  "typeof JUndefined = ''undefined''"
| "typeof JNull = ''object''"
| "typeof (JBool b) = ''boolean''"
| "typeof (JNum n) = ''number''"
| "typeof (JStr s) = ''string''"
| "typeof (JArr xs) = ''object''"
| "typeof (JObj ps) = ''object''"

text \<open>
  \<open>get v k\<close> is the property read \<^verbatim>\<open>v.k\<close> for a value that is neither null nor
  undefined (where the source reads a property of a value that may be null, the model
  tests for it first). The program reads fixed names only, none of them an array index
  or \<^verbatim>\<open>length\<close>, so an array or a primitive has none of them.
\<close>

fun get :: "jsval \<Rightarrow> string \<Rightarrow> jsval" where
  "get (JObj ps) k = (case map_of ps k of Some v \<Rightarrow> v | None \<Rightarrow> JUndefined)"
| "get v k = JUndefined"

text \<open>\<open>opt_get v k\<close> is the optional chain \<^verbatim>\<open>v?.k\<close>.\<close>

definition opt_get :: "jsval \<Rightarrow> string \<Rightarrow> jsval" where
  "opt_get v k = (if v = JNull \<or> v = JUndefined then JUndefined else get v k)"

subsection \<open>Decimal digits\<close>

definition is_digit :: "char \<Rightarrow> bool" where
  "is_digit c = (c \<in> set ''0123456789'')"

definition digit_val :: "char \<Rightarrow> int" where
  "digit_val c = of_char c - 48"

definition digit_char :: "int \<Rightarrow> char" where
  "digit_char d = ''0123456789'' ! nat d"

function dec_digits :: "int \<Rightarrow> string" where
  "dec_digits n = (if n < 10 then [digit_char n] else dec_digits (n div 10) @ [digit_char (n mod 10)])"
  by pat_completeness auto
termination
  by (relation "measure nat") auto

declare dec_digits.simps [simp del]

definition dec_nat :: "nat \<Rightarrow> string" where
  "dec_nat n = dec_digits (int n)"

definition dec_int :: "int \<Rightarrow> string" where
  "dec_int i = (if i < 0 then CHR ''-'' # dec_digits (- i) else dec_digits i)"

text \<open>\<^verbatim>\<open>parseInt(ds, 10)\<close> on a run of decimal digits.\<close>

definition parseInt10 :: "string \<Rightarrow> int" where
  "parseInt10 ds = foldl (\<lambda>a c. 10 * a + digit_val c) 0 ds"

text \<open>The first group of \<^verbatim>\<open>String(key).match(/(\d+)/)\<close>: the first run of digits.\<close>

definition first_digits :: "string \<Rightarrow> string option" where
  "first_digits key =
     (let ds = takeWhile is_digit (dropWhile (\<lambda>c. \<not> is_digit c) key)
      in if ds = [] then None else Some ds)"

subsection \<open>String conversion\<close>

text \<open>
  \<^verbatim>\<open>String(v)\<close>. An array joins its elements with commas, null and undefined
  elements as the empty string. (Integers print in decimal; the exponent form that
  JavaScript uses from \<open>10\<^sup>2\<^sup>1\<close> on is outside the model.)
\<close>

fun join_comma :: "string list \<Rightarrow> string" where
  "join_comma [] = []"
| "join_comma [s] = s"
| "join_comma (s # t # ss) = s @ '','' @ join_comma (t # ss)"

fun js_String :: "jsval \<Rightarrow> string" where
  "js_String JUndefined = ''undefined''"
| "js_String JNull = ''null''"
| "js_String (JBool b) = (if b then ''true'' else ''false'')"
| "js_String (JNum n) = dec_int n"
| "js_String (JStr s) = s"
| "js_String (JArr xs) =
     join_comma (map (\<lambda>x. if x = JNull \<or> x = JUndefined then [] else js_String x) xs)"
| "js_String (JObj ps) = ''[object Object]''"

text \<open>
  \<^verbatim>\<open>Object.entries(v)\<close> for a value of type object: the properties of an object,
  the elements of an array under their indices.
\<close>

fun Object_entries :: "jsval \<Rightarrow> (string \<times> jsval) list" where
  "Object_entries (JObj ps) = ps"
| "Object_entries (JArr xs) = zip (map dec_nat [0..<length xs]) xs"
| "Object_entries v = []"

section \<open>The image-variant selector\<close>

text \<open>
  \<^verbatim>\<open>pickBestImageVariant(images)\<close>. A variant with a falsy value or a falsy
  \<^verbatim>\<open>url\<close> is skipped. \<open>numeric v\<close> is \<^verbatim>\<open>typeof v === "number" ? v : null\<close>;
  \<^verbatim>\<open>w && h\<close> holds when both are numbers other than zero.
\<close>

definition numeric :: "jsval \<Rightarrow> int option" where
  "numeric v = (case v of JNum n \<Rightarrow> Some n | _ \<Rightarrow> None)"

definition key_score :: "string \<Rightarrow> int" where
  "key_score key = (case first_digits key of Some ds \<Rightarrow> parseInt10 ds | None \<Rightarrow> 999999)"

fun score_of :: "string \<Rightarrow> int option \<Rightarrow> int option \<Rightarrow> int" where
  "score_of key (Some w) (Some h) = (if w \<noteq> 0 \<and> h \<noteq> 0 then w * h else key_score key)"
| "score_of key w h = key_score key"

definition variant_score :: "string \<times> jsval \<Rightarrow> int" where
  "variant_score e = score_of (fst e) (numeric (get (snd e) ''width'')) (numeric (get (snd e) ''height''))"

definition usable :: "string \<times> jsval \<Rightarrow> bool" where
  "usable e = (truthy (snd e) \<and> truthy (get (snd e) ''url''))"

definition variant_url :: "string \<times> jsval \<Rightarrow> jsval" where
  "variant_url e = get (snd e) ''url''"

fun best_loop :: "(string \<times> jsval) list \<Rightarrow> jsval \<Rightarrow> int \<Rightarrow> jsval" where
  "best_loop [] bestUrl bestScore = bestUrl"
| "best_loop (e # es) bestUrl bestScore =
     (if \<not> usable e then best_loop es bestUrl bestScore
      else if variant_score e > bestScore then best_loop es (variant_url e) (variant_score e)
      else best_loop es bestUrl bestScore)"

definition pickBestImageVariant :: "jsval \<Rightarrow> jsval" where
  "pickBestImageVariant images =
     (if \<not> truthy images \<or> typeof images \<noteq> ''object'' then JNull
      else best_loop (Object_entries images) JNull (- 1))"

text \<open>
  The score as the specification words it: the area whenever both sizes are numbers,
  zero included.
\<close>

fun spec_score_of :: "string \<Rightarrow> int option \<Rightarrow> int option \<Rightarrow> int" where
  "spec_score_of key (Some w) (Some h) = w * h"
| "spec_score_of key w h = key_score key"

definition spec_score :: "string \<times> jsval \<Rightarrow> int" where
  "spec_score e = spec_score_of (fst e) (numeric (get (snd e) ''width'')) (numeric (get (snd e) ''height''))"

text \<open>
  \<open>first_max score ok es i\<close>: among the entries that satisfy \<open>ok\<close>, entry \<open>i\<close> has
  the highest score, and it is the first to have it.
\<close>

definition first_max :: "('a \<Rightarrow> int) \<Rightarrow> ('a \<Rightarrow> bool) \<Rightarrow> 'a list \<Rightarrow> nat \<Rightarrow> bool" where
  "first_max score ok es i =
     (i < length es \<and> ok (es ! i)
      \<and> (\<forall>j < length es. ok (es ! j) \<longrightarrow> score (es ! j) \<le> score (es ! i))
      \<and> (\<forall>j < i. ok (es ! j) \<longrightarrow> score (es ! j) < score (es ! i)))"

text \<open>
  A variant can win only with a truthy \<^verbatim>\<open>url\<close> and a score above the initial
  \<^verbatim>\<open>bestScore = -1\<close>.
\<close>

definition candidate :: "string \<times> jsval \<Rightarrow> bool" where
  "candidate e = (usable e \<and> - 1 < variant_score e)"

text \<open>Two variant maps used as concrete inputs below.\<close>

definition zero_area_variants :: jsval where
  "zero_area_variants = JObj
     [(''orig'', JObj [(''url'', JStr ''a''), (''width'', JNum 0), (''height'', JNum 0)]),
      (''x'', JObj [(''url'', JStr ''b''), (''width'', JNum 10), (''height'', JNum 10)])]"

definition tied_variants :: jsval where
  "tied_variants = JObj
     [(''600x'', JObj [(''url'', JStr ''a'')]),
      (''big'', JObj [(''url'', JStr ''b''), (''width'', JNum 30), (''height'', JNum 20)]),
      (''x600'', JObj [(''url'', JStr ''c'')]),
      (''nourl'', JObj [(''width'', JNum 1000), (''height'', JNum 1000)])]"

definition no_url_variants :: jsval where
  "no_url_variants = JObj [(''orig'', JObj [(''width'', JNum 5), (''height'', JNum 5)])]"

section \<open>The pin normalizer\<close>

text \<open>
  \<^verbatim>\<open>pickImageUrlFromPin(pin)\<close>: \<^verbatim>\<open>pin.media?.images\<close> through the selector, then
  \<^verbatim>\<open>pin.images\<close> through the selector, then the scalar fields.
\<close>

definition pickImageUrlFromPin :: "jsval \<Rightarrow> jsval" where
  "pickImageUrlFromPin pin =
     (if \<not> truthy pin \<or> typeof pin \<noteq> ''object'' then JNull
      else
        let mediaImages = opt_get (get pin ''media'') ''images'' in
        if truthy mediaImages \<and> truthy (pickBestImageVariant mediaImages)
        then pickBestImageVariant mediaImages
        else
          let images = get pin ''images'' in
          if truthy images \<and> truthy (pickBestImageVariant images)
          then pickBestImageVariant images
          else if truthy (get pin ''image_url'') then get pin ''image_url''
          else if truthy (get pin ''thumbnail_url'') then get pin ''thumbnail_url''
          else JNull)"

text \<open>The canonical record \<^verbatim>\<open>{id, title, link, image}\<close>.\<close>

record pin =
  id_pin :: string
  title :: jsval
  link :: jsval
  image_pin :: jsval

datatype error =
    TypeError
  | FetchFailed
  | PinterestApiError int string
  | JsonError

text \<open>
  The callback of \<^verbatim>\<open>items.map\<close>. Reading \<^verbatim>\<open>p.id\<close> of a null element raises a
  TypeError. \<open>rnd\<close> is the string of the \<^verbatim>\<open>Math.random()\<close> draw this element would
  make; it is drawn only when both the id and the image are falsy.
\<close>

definition normalize_pin :: "string \<Rightarrow> jsval \<Rightarrow> error + pin" where
  "normalize_pin rnd p =
     (let image = pickImageUrlFromPin p in
      if p = JNull \<or> p = JUndefined then Inl TypeError
      else Inr \<lparr>
        id_pin = (if truthy (get p ''id'') then js_String (get p ''id'')
                  else if truthy image then js_String image
                  else rnd),
        title = js_or (get p ''title'') (js_or (get p ''description'') (js_or (get p ''alt_text'') (JStr []))),
        link = js_or (get p ''link'') JNull,
        image_pin = image \<rparr>)"

fun map_pins :: "(nat \<Rightarrow> string) \<Rightarrow> nat \<Rightarrow> jsval list \<Rightarrow> error + pin list" where
  "map_pins rnd i [] = Inr []"
| "map_pins rnd i (p # ps) =
     (case normalize_pin (rnd i) p of
        Inl e \<Rightarrow> Inl e
      | Inr r \<Rightarrow> (case map_pins rnd (Suc i) ps of Inl e \<Rightarrow> Inl e | Inr rs \<Rightarrow> Inr (r # rs)))"

text \<open>\<^verbatim>\<open>Array.isArray(json?.items) ? json.items : []\<close>\<close>

definition items_of :: "jsval \<Rightarrow> jsval list" where
  "items_of json = (case opt_get json ''items'' of JArr xs \<Rightarrow> xs | _ \<Rightarrow> [])"

definition normalizePinsFromPinterest :: "(nat \<Rightarrow> string) \<Rightarrow> jsval \<Rightarrow> error + pin list" where
  "normalizePinsFromPinterest rnd json =
     (case map_pins rnd 0 (items_of json) of
        Inl e \<Rightarrow> Inl e
      | Inr rs \<Rightarrow> Inr (filter (\<lambda>p. truthy (image_pin p)) rs))"

text \<open>
  The resolution order as the specification words it: the first of the four sources
  that yields something, else nothing.
\<close>

definition spec_image :: "jsval \<Rightarrow> jsval" where
  "spec_image pin =
     (case find truthy
        [pickBestImageVariant (opt_get (get pin ''media'') ''images''),
         pickBestImageVariant (get pin ''images''),
         get pin ''image_url'',
         get pin ''thumbnail_url'']
      of Some v \<Rightarrow> v | None \<Rightarrow> JNull)"

text \<open>The record of a raw pin that has an image: no random draw in it.\<close>

definition record_of :: "jsval \<Rightarrow> pin" where
  "record_of p = \<lparr>
     id_pin = js_String (js_or (get p ''id'') (pickImageUrlFromPin p)),
     title = js_or (get p ''title'') (js_or (get p ''description'') (js_or (get p ''alt_text'') (JStr []))),
     link = js_or (get p ''link'') JNull,
     image_pin = pickImageUrlFromPin p \<rparr>"

text \<open>Upstream bodies used as concrete inputs below.\<close>

definition sample_page :: jsval where
  "sample_page = JObj [(''items'', JArr
     [JObj [(''id'', JNum 7),
            (''media'', JObj [(''images'', JObj [(''600x'', JObj [(''url'', JStr ''m'')])])]),
            (''image_url'', JStr ''i'')],
      JObj [(''id'', JStr ''p2''), (''title'', JStr ''t'')],
      JObj [(''images'', JObj [(''orig'', JObj [(''url'', JStr ''o'')])]),
            (''thumbnail_url'', JStr ''th'')],
      JNum 5,
      JObj [(''thumbnail_url'', JStr ''th2''), (''description'', JStr ''d'')]])]"

definition no_array_page :: jsval where
  "no_array_page = JObj [(''items'', JStr ''x'')]"

definition null_item_page :: jsval where
  "null_item_page = JObj [(''items'', JArr [JNull])]"

text \<open>
  Two bodies with the same pin, the first with a null element before it, and an
  upstream that answers every page request with the first.
\<close>

definition null_then_pin_page :: jsval where
  "null_then_pin_page = JObj
     [(''items'', JArr [JNull, JObj [(''id'', JStr ''1''), (''image_url'', JStr ''u'')]])]"

definition pin_only_page :: jsval where
  "pin_only_page = JObj
     [(''items'', JArr [JObj [(''id'', JStr ''1''), (''image_url'', JStr ''u'')]])]"

definition numeric_url_page :: jsval where
  "numeric_url_page = JObj [(''items'', JArr [JObj [(''image_url'', JNum 123)]])]"

subsection \<open>The normalizer of server/index.js\<close>

text \<open>
  The repository holds a second, earlier server file, \<^verbatim>\<open>server/index.js\<close>, with its
  own \<^verbatim>\<open>pickImageUrlFromPin\<close> and the same \<^verbatim>\<open>normalizePinsFromPinterest\<close>. Its
  picker takes the first variant whose \<^verbatim>\<open>url\<close> is a string, and tests
  \<^verbatim>\<open>typeof ... === 'string'\<close> at every candidate. Its definitions carry the suffix
  \<open>v1\<close> here.
\<close>

definition has_string_url :: "jsval \<Rightarrow> bool" where
  "has_string_url v = (truthy v \<and> typeof v = ''object'' \<and> typeof (get v ''url'') = ''string'')"

fun first_string_url :: "jsval list \<Rightarrow> jsval option" where
  "first_string_url [] = None"
| "first_string_url (v # vs) = (if has_string_url v then Some (get v ''url'') else first_string_url vs)"

definition Object_values :: "jsval \<Rightarrow> jsval list" where
  "Object_values v = map snd (Object_entries v)"

definition preferredOrder :: "string list" where
  "preferredOrder = [''orig'', ''1200x'', ''1000x'', ''800x'', ''600x'', ''400x'', ''236x'', ''150x150'']"

fun first_preferred :: "jsval \<Rightarrow> string list \<Rightarrow> jsval option" where
  "first_preferred images [] = None"
| "first_preferred images (key # ks) =
     (if truthy (get images key) \<and> typeof (get (get images key) ''url'') = ''string''
      then Some (get (get images key) ''url'')
      else first_preferred images ks)"

text \<open>The test \<^verbatim>\<open>/^https?:\/\/i\.pinimg\.com\//\<close>\<close>

definition is_pinimg_link :: "string \<Rightarrow> bool" where
  "is_pinimg_link s = (prefix ''http://i.pinimg.com/'' s \<or> prefix ''https://i.pinimg.com/'' s)"

definition pickImageUrlFromPin_v1 :: "jsval \<Rightarrow> jsval" where
  "pickImageUrlFromPin_v1 pin =
     (if \<not> truthy pin \<or> typeof pin \<noteq> ''object'' then JNull
      else
        let mediaImages =
              (if truthy (get pin ''media'') then get (get pin ''media'') ''images''
               else get pin ''media'')
        in
        case (if truthy mediaImages \<and> typeof mediaImages = ''object''
              then first_string_url (Object_values mediaImages) else None) of
          Some u \<Rightarrow> u
        | None \<Rightarrow>
            let images = get pin ''images'' in
            case (if truthy images \<and> typeof images = ''object''
                  then (case first_preferred images preferredOrder of
                          Some u \<Rightarrow> Some u
                        | None \<Rightarrow> first_string_url (Object_values images))
                  else None) of
              Some u \<Rightarrow> u
            | None \<Rightarrow>
                if typeof (get pin ''image_url'') = ''string'' then get pin ''image_url''
                else if typeof (get pin ''thumbnail_url'') = ''string'' then get pin ''thumbnail_url''
                else
                  (case get pin ''link'' of
                     JStr s \<Rightarrow> if is_pinimg_link s then JStr s else JNull
                   | _ \<Rightarrow> JNull))"

definition normalize_pin_v1 :: "string \<Rightarrow> jsval \<Rightarrow> error + pin" where
  "normalize_pin_v1 rnd p =
     (let image = pickImageUrlFromPin_v1 p in
      if p = JNull \<or> p = JUndefined then Inl TypeError
      else Inr \<lparr>
        id_pin = (if truthy (get p ''id'') then js_String (get p ''id'')
                  else if truthy image then js_String image
                  else rnd),
        title = js_or (get p ''title'') (js_or (get p ''description'') (js_or (get p ''alt_text'') (JStr []))),
        link = js_or (get p ''link'') JNull,
        image_pin = image \<rparr>)"

fun map_pins_v1 :: "(nat \<Rightarrow> string) \<Rightarrow> nat \<Rightarrow> jsval list \<Rightarrow> error + pin list" where
  "map_pins_v1 rnd i [] = Inr []"
| "map_pins_v1 rnd i (p # ps) =
     (case normalize_pin_v1 (rnd i) p of
        Inl e \<Rightarrow> Inl e
      | Inr r \<Rightarrow> (case map_pins_v1 rnd (Suc i) ps of Inl e \<Rightarrow> Inl e | Inr rs \<Rightarrow> Inr (r # rs)))"

definition normalizePinsFromPinterest_v1 :: "(nat \<Rightarrow> string) \<Rightarrow> jsval \<Rightarrow> error + pin list" where
  "normalizePinsFromPinterest_v1 rnd json =
     (case map_pins_v1 rnd 0 (items_of json) of
        Inl e \<Rightarrow> Inl e
      | Inr rs \<Rightarrow> Inr (filter (\<lambda>p. truthy (image_pin p)) rs))"

section \<open>Numbers of the limit arithmetic\<close>

text \<open>
  The limits are JavaScript numbers: an integer here, or \<open>NaN\<close>, which
  \<^verbatim>\<open>Number\<close> gives for a string that is not numeric and which \<^verbatim>\<open>Math.min\<close>,
  \<^verbatim>\<open>Math.max\<close> and subtraction hand on. Every comparison with \<open>NaN\<close> is false.
\<close>

datatype jsnum = NaN | Fin int

definition js_max :: "jsnum \<Rightarrow> jsnum \<Rightarrow> jsnum" where
  "js_max a b = (case (a, b) of (Fin x, Fin y) \<Rightarrow> Fin (max x y) | _ \<Rightarrow> NaN)"

definition js_min :: "jsnum \<Rightarrow> jsnum \<Rightarrow> jsnum" where
  "js_min a b = (case (a, b) of (Fin x, Fin y) \<Rightarrow> Fin (min x y) | _ \<Rightarrow> NaN)"

text \<open>\<^verbatim>\<open>a - xs.length\<close>\<close>

definition js_minus :: "jsnum \<Rightarrow> nat \<Rightarrow> jsnum" where
  "js_minus a n = (case a of Fin x \<Rightarrow> Fin (x - int n) | NaN \<Rightarrow> NaN)"

text \<open>\<^verbatim>\<open>a || 0\<close>\<close>

definition or_zero :: "jsnum \<Rightarrow> jsnum" where
  "or_zero a = (case a of Fin x \<Rightarrow> Fin x | NaN \<Rightarrow> Fin 0)"

text \<open>\<^verbatim>\<open>xs.length < l\<close> and \<^verbatim>\<open>xs.length >= l\<close>\<close>

definition len_lt :: "nat \<Rightarrow> jsnum \<Rightarrow> bool" where
  "len_lt n l = (case l of Fin x \<Rightarrow> int n < x | NaN \<Rightarrow> False)"

definition len_ge :: "nat \<Rightarrow> jsnum \<Rightarrow> bool" where
  "len_ge n l = (case l of Fin x \<Rightarrow> x \<le> int n | NaN \<Rightarrow> False)"

text \<open>
  \<^verbatim>\<open>xs.slice(0, l)\<close>: the end is converted to an integer, \<open>NaN\<close> to 0, and a
  negative end counts from the end of the array.
\<close>

definition slice0 :: "'a list \<Rightarrow> jsnum \<Rightarrow> 'a list" where
  "slice0 xs l =
     (case l of
        NaN \<Rightarrow> []
      | Fin x \<Rightarrow> if x < 0 then take (nat (int (length xs) + x)) xs else take (nat x) xs)"

definition num_String :: "jsnum \<Rightarrow> string" where
  "num_String a = (case a of NaN \<Rightarrow> ''NaN'' | Fin x \<Rightarrow> dec_int x)"

text \<open>
  \<^verbatim>\<open>s.trim()\<close> and \<^verbatim>\<open>Number(s)\<close> on a string, for the ASCII white space and the
  decimal integer literals: the empty string is 0, an optionally signed run of digits
  is its value, a string that is not numeric is \<open>NaN\<close>. (Literals with a fraction, an
  exponent or a radix prefix and \<^verbatim>\<open>Infinity\<close> denote numbers that the integers of
  this model do not have; they are not among the inputs considered.)
\<close>

definition is_space :: "char \<Rightarrow> bool" where
  "is_space c = (c \<in> set [CHR '' '', CHR 0x09, CHR 0x0A, CHR 0x0B, CHR 0x0C, CHR 0x0D])"

definition trim :: "string \<Rightarrow> string" where
  "trim s = rev (dropWhile is_space (rev (dropWhile is_space s)))"

definition StringToNumber :: "string \<Rightarrow> jsnum" where
  "StringToNumber s =
     (case trim s of
        [] \<Rightarrow> Fin 0
      | c # ds \<Rightarrow>
          if c = CHR ''-'' \<and> ds \<noteq> [] \<and> list_all is_digit ds then Fin (- parseInt10 ds)
          else if c = CHR ''+'' \<and> ds \<noteq> [] \<and> list_all is_digit ds then Fin (parseInt10 ds)
          else if list_all is_digit (c # ds) then Fin (parseInt10 (c # ds))
          else NaN)"

section \<open>The upstream\<close>

text \<open>
  A request as the server builds it: the endpoint, the query parameters
  \<^verbatim>\<open>page_size\<close> and \<^verbatim>\<open>bookmark\<close>, the bearer token. A response carries its status,
  what \<^verbatim>\<open>res.text()\<close> and \<^verbatim>\<open>res.json()\<close> give (\<open>None\<close> when the call rejects)
  and the two headers the server reads. \<^verbatim>\<open>res.ok\<close> is a status from 200 to 299.
\<close>

record request =
  url :: string
  page_size :: "string option"
  bookmark :: "string option"
  bearer :: "string option"

record response =
  status :: int
  body_text :: "string option"
  body_json :: "jsval option"
  content_type :: "string option"
  content_length :: "string option"

definition ok :: "response \<Rightarrow> bool" where
  "ok res = (200 \<le> status res \<and> status res \<le> 299)"

text \<open>
  \<^verbatim>\<open>fetch\<close> settles with a response or rejects (a network failure, or the abort
  when the timer of \<^verbatim>\<open>fetchWithTimeout\<close> fires: time itself is not modelled). The
  upstream is any function of the exchanges so far and the request; the state that a
  handler threads is the trace of the exchanges it has made.
\<close>

datatype fetched = Threw | Resp response

type_synonym trace = "(request \<times> fetched) list"

type_synonym upstream = "trace \<Rightarrow> request \<Rightarrow> fetched"

definition fetchWithTimeout :: "upstream \<Rightarrow> request \<Rightarrow> trace \<Rightarrow> fetched \<times> trace" where
  "fetchWithTimeout up req tr = (up tr req, tr @ [(req, up tr req)])"

text \<open>\<^verbatim>\<open>json?.bookmark || json?.next_bookmark || null\<close>\<close>

definition next_bookmark :: "jsval \<Rightarrow> jsval" where
  "next_bookmark json = js_or (opt_get json ''bookmark'') (js_or (opt_get json ''next_bookmark'') JNull)"

section \<open>The paged collection fetcher\<close>

record paged_args =
  endpointBase :: string
  accessToken :: string
  limit :: jsnum

definition safeLimit :: "paged_args \<Rightarrow> jsnum" where
  "safeLimit args = js_min (js_max (or_zero (limit args)) (Fin 1)) (Fin 500)"

definition pageSize :: "paged_args \<Rightarrow> jsnum" where
  "pageSize args = js_min (safeLimit args) (Fin 50)"

definition page_request :: "paged_args \<Rightarrow> jsval \<Rightarrow> request" where
  "page_request args bm = \<lparr>
     url = endpointBase args,
     page_size = Some (num_String (pageSize args)),
     bookmark = (if truthy bm then Some (js_String bm) else None),
     bearer = Some (accessToken args) \<rparr>"

text \<open>
  The inner loop \<^verbatim>\<open>for (const p of normalized)\<close>: stop at the limit, skip an id
  already seen, else record the id and append the pin.
\<close>

fun push_unseen :: "jsnum \<Rightarrow> pin list \<Rightarrow> pin list \<Rightarrow> string set \<Rightarrow> pin list \<times> string set" where
  "push_unseen lim [] out seen = (out, seen)"
| "push_unseen lim (p # ps) out seen =
     (if len_ge (length out) lim then (out, seen)
      else if id_pin p \<in> seen then push_unseen lim ps out seen
      else push_unseen lim ps (out @ [p]) (insert (id_pin p) seen))"

text \<open>
  One turn of the \<^verbatim>\<open>while\<close> loop of \<^verbatim>\<open>fetchPinsPaged\<close>: it ends the call
  (an error thrown, or the \<^verbatim>\<open>break\<close> on a falsy bookmark) or hands the next turn
  its \<^verbatim>\<open>out\<close>, \<^verbatim>\<open>seen\<close> and \<^verbatim>\<open>bookmark\<close>.
\<close>

datatype page_step = Done "error + pin list" | Next "pin list" "string set" jsval

definition page_body ::
  "upstream \<Rightarrow> (nat \<Rightarrow> string) \<Rightarrow> paged_args \<Rightarrow> pin list \<Rightarrow> string set \<Rightarrow> jsval \<Rightarrow> trace
   \<Rightarrow> page_step \<times> trace" where
  "page_body up rnd args out seen bm tr =
     (case fetchWithTimeout up (page_request args bm) tr of
        (Threw, tr') \<Rightarrow> (Done (Inl FetchFailed), tr')
      | (Resp res, tr') \<Rightarrow>
          if \<not> ok res
          then (Done (Inl (PinterestApiError (status res)
                  (case body_text res of Some t \<Rightarrow> t | None \<Rightarrow> []))), tr')
          else
            (case body_json res of
               None \<Rightarrow> (Done (Inl JsonError), tr')
             | Some json \<Rightarrow>
                 (case normalizePinsFromPinterest rnd json of
                    Inl e \<Rightarrow> (Done (Inl e), tr')
                  | Inr normalized \<Rightarrow>
                      (case push_unseen (safeLimit args) normalized out seen of
                         (out', seen') \<Rightarrow>
                           if \<not> truthy (next_bookmark json)
                           then (Done (Inr (slice0 out' (safeLimit args))), tr')
                           else (Next out' seen' (next_bookmark json), tr')))))"

function fetch_loop ::
  "upstream \<Rightarrow> (nat \<Rightarrow> nat \<Rightarrow> string) \<Rightarrow> paged_args \<Rightarrow> pin list \<Rightarrow> string set \<Rightarrow> jsval \<Rightarrow> nat
   \<Rightarrow> trace \<Rightarrow> (error + pin list) \<times> trace" where
  "fetch_loop up rnd args out seen bm loops tr =
     (if len_lt (length out) (safeLimit args) \<and> loops < 50
      then
        (case page_body up (rnd loops) args out seen bm tr of
           (Done r, tr') \<Rightarrow> (r, tr')
         | (Next out' seen' bm', tr') \<Rightarrow> fetch_loop up rnd args out' seen' bm' (Suc loops) tr')
      else (Inr (slice0 out (safeLimit args)), tr))"
  by pat_completeness auto
termination
  by (relation "measure (\<lambda>(up, rnd, args, out, seen, bm, loops, tr). 50 - loops)") auto

declare fetch_loop.simps [simp del]

definition fetchPinsPaged ::
  "upstream \<Rightarrow> (nat \<Rightarrow> nat \<Rightarrow> string) \<Rightarrow> paged_args \<Rightarrow> trace \<Rightarrow> (error + pin list) \<times> trace" where
  "fetchPinsPaged up rnd args tr = fetch_loop up rnd args [] {} JNull 0 tr"

text \<open>
  Two readings of a trace of page exchanges, used to state what the loop did.
  \<open>has_bookmark f\<close>: the page came with JSON that carries a truthy bookmark.
  \<open>replay lim rnd k xs out seen\<close>: the records accumulated once the pages \<open>xs\<close>
  (the \<open>k\<close>-th turn onwards) have been merged into \<open>out\<close>.
\<close>

definition has_bookmark :: "fetched \<Rightarrow> bool" where
  "has_bookmark f =
     (case f of
        Threw \<Rightarrow> False
      | Resp res \<Rightarrow> (case body_json res of None \<Rightarrow> False | Some json \<Rightarrow> truthy (next_bookmark json)))"

fun replay ::
  "jsnum \<Rightarrow> (nat \<Rightarrow> nat \<Rightarrow> string) \<Rightarrow> nat \<Rightarrow> trace \<Rightarrow> pin list \<Rightarrow> string set \<Rightarrow> pin list \<times> string set" where
  "replay lim rnd k [] out seen = (out, seen)"
| "replay lim rnd k ((req, f) # xs) out seen =
     (case f of
        Threw \<Rightarrow> (out, seen)
      | Resp res \<Rightarrow>
          (case body_json res of
             None \<Rightarrow> (out, seen)
           | Some json \<Rightarrow>
               (case normalizePinsFromPinterest (rnd k) json of
                  Inl e \<Rightarrow> (out, seen)
                | Inr ps \<Rightarrow>
                    (case push_unseen lim ps out seen of
                       (out', seen') \<Rightarrow> replay lim rnd (Suc k) xs out' seen'))))"

section \<open>The multi-board aggregation\<close>

record board =
  id_board :: string
  name :: jsval

text \<open>The boards of one page of the listing: the items with a truthy id.\<close>

definition boards_of :: "jsval \<Rightarrow> board list" where
  "boards_of json =
     map (\<lambda>b. \<lparr>id_board = js_String (get b ''id''), name = js_or (get b ''name'') (JStr [])\<rparr>)
       (filter (\<lambda>b. truthy (opt_get b ''id'')) (items_of json))"

text \<open>
  How \<^verbatim>\<open>/api/me/pins\<close> fails: no token (status 500), a page of the board listing
  with a status that is not a success (502), anything thrown outside the per-board
  \<^verbatim>\<open>try\<close> (502).
\<close>

datatype failure = NoAccessToken | BoardsApiError | RequestFailed

datatype reply = Failure failure | Items "pin list"

fun reply_status :: "reply \<Rightarrow> int" where
  "reply_status (Failure NoAccessToken) = 500"
| "reply_status (Failure BoardsApiError) = 502"
| "reply_status (Failure RequestFailed) = 502"
| "reply_status (Items ps) = 200"

definition boards_request :: "string \<Rightarrow> jsval \<Rightarrow> request" where
  "boards_request token bm = \<lparr>
     url = ''https://api.pinterest.com/v5/boards'',
     page_size = Some ''100'',
     bookmark = (if truthy bm then Some (js_String bm) else None),
     bearer = Some token \<rparr>"

datatype boards_step = BDone "failure + board list" | BNext "board list" jsval

definition boards_body ::
  "upstream \<Rightarrow> string \<Rightarrow> board list \<Rightarrow> jsval \<Rightarrow> trace \<Rightarrow> boards_step \<times> trace" where
  "boards_body up token boards bm tr =
     (case fetchWithTimeout up (boards_request token bm) tr of
        (Threw, tr') \<Rightarrow> (BDone (Inl RequestFailed), tr')
      | (Resp res, tr') \<Rightarrow>
          if \<not> ok res then (BDone (Inl BoardsApiError), tr')
          else
            (case body_json res of
               None \<Rightarrow> (BDone (Inl RequestFailed), tr')
             | Some json \<Rightarrow>
                 if \<not> truthy (next_bookmark json)
                 then (BDone (Inr (boards @ boards_of json)), tr')
                 else (BNext (boards @ boards_of json) (next_bookmark json), tr')))"

function boards_loop ::
  "upstream \<Rightarrow> string \<Rightarrow> board list \<Rightarrow> jsval \<Rightarrow> nat \<Rightarrow> trace \<Rightarrow> (failure + board list) \<times> trace" where
  "boards_loop up token boards bm loops tr =
     (if length boards < 500 \<and> loops < 20
      then
        (case boards_body up token boards bm tr of
           (BDone r, tr') \<Rightarrow> (r, tr')
         | (BNext boards' bm', tr') \<Rightarrow> boards_loop up token boards' bm' (Suc loops) tr')
      else (Inr boards, tr))"
  by pat_completeness auto
termination
  by (relation "measure (\<lambda>(up, token, boards, bm, loops, tr). 20 - loops)") auto

declare boards_loop.simps [simp del]

text \<open>\<^verbatim>\<open>encodeURIComponent\<close>, byte by byte on the UTF-8 form of the string.\<close>

definition unreserved :: "char \<Rightarrow> bool" where
  "unreserved c =
     (c \<in> set ''ABCDEFGHIJKLMNOPQRSTUVWXYZabcdefghijklmnopqrstuvwxyz0123456789-_.!~*()''
      \<or> c = CHR 0x27)"

definition hex_digit :: "nat \<Rightarrow> char" where
  "hex_digit d = ''0123456789ABCDEF'' ! d"

definition encodeURIComponent :: "string \<Rightarrow> string" where
  "encodeURIComponent s =
     concat (map (\<lambda>c. if unreserved c then [c]
                      else [CHR ''%'', hex_digit (of_char c div 16), hex_digit (of_char c mod 16)]) s)"

definition board_endpoint :: "string \<Rightarrow> string" where
  "board_endpoint b = ''https://api.pinterest.com/v5/boards/'' @ encodeURIComponent b @ ''/pins''"

text \<open>The limit handed to the fetch of one board: \<^verbatim>\<open>Math.min(200, limit - out.length)\<close>.\<close>

definition board_limit :: "jsnum \<Rightarrow> pin list \<Rightarrow> jsnum" where
  "board_limit lim out = js_min (Fin 200) (js_minus lim (length out))"

text \<open>
  The loop \<^verbatim>\<open>for (const b of boards)\<close>. An error thrown by the fetch of a board is
  caught and the loop goes on with the next board. \<open>i\<close> counts the boards, for the
  random draws.
\<close>

fun collect_boards ::
  "upstream \<Rightarrow> (nat \<Rightarrow> nat \<Rightarrow> nat \<Rightarrow> string) \<Rightarrow> string \<Rightarrow> jsnum \<Rightarrow> nat \<Rightarrow> board list
   \<Rightarrow> pin list \<Rightarrow> string set \<Rightarrow> trace \<Rightarrow> (pin list \<times> string set) \<times> trace" where
  "collect_boards up rnd token lim i [] out seen tr = ((out, seen), tr)"
| "collect_boards up rnd token lim i (b # bs) out seen tr =
     (if len_ge (length out) lim then ((out, seen), tr)
      else
        (case fetchPinsPaged up (rnd i)
                \<lparr>endpointBase = board_endpoint (id_board b), accessToken = token,
                 limit = board_limit lim out\<rparr> tr of
           (Inl e, tr') \<Rightarrow> collect_boards up rnd token lim (Suc i) bs out seen tr'
         | (Inr pins, tr') \<Rightarrow>
             (case push_unseen lim pins out seen of
                (out', seen') \<Rightarrow> collect_boards up rnd token lim (Suc i) bs out' seen' tr')))"

text \<open>
  The handler of \<^verbatim>\<open>GET /api/me/pins\<close>. \<open>requested_limit q\<close> is
  \<^verbatim>\<open>Math.min(Math.max(Number(req.query.limit || 120), 1), 500)\<close> for the query
  parameter \<open>q\<close> (\<open>None\<close> when it is absent); \<open>me_pins\<close> is the handler from there on.
\<close>

definition requested_limit :: "string option \<Rightarrow> jsnum" where
  "requested_limit q =
     js_min (js_max (case q of None \<Rightarrow> Fin 120 | Some s \<Rightarrow> if s = [] then Fin 120 else StringToNumber s)
               (Fin 1)) (Fin 500)"

definition me_pins ::
  "upstream \<Rightarrow> (nat \<Rightarrow> nat \<Rightarrow> nat \<Rightarrow> string) \<Rightarrow> string option \<Rightarrow> jsnum \<Rightarrow> trace \<Rightarrow> reply \<times> trace" where
  "me_pins up rnd tok lim tr =
     (case tok of
        None \<Rightarrow> (Failure NoAccessToken, tr)
      | Some token \<Rightarrow>
          if token = [] then (Failure NoAccessToken, tr)
          else
            (case boards_loop up token [] JNull 0 tr of
               (Inl f, tr') \<Rightarrow> (Failure f, tr')
             | (Inr boards, tr') \<Rightarrow>
                 if boards = [] then (Items [], tr')
                 else
                   (case collect_boards up rnd token lim 0 boards [] {} tr' of
                      ((out, seen), tr'') \<Rightarrow> (Items (slice0 out lim), tr''))))"

definition api_me_pins ::
  "upstream \<Rightarrow> (nat \<Rightarrow> nat \<Rightarrow> nat \<Rightarrow> string) \<Rightarrow> string option \<Rightarrow> string option \<Rightarrow> trace \<Rightarrow> reply \<times> trace" where
  "api_me_pins up rnd tok q tr = me_pins up rnd tok (requested_limit q) tr"

section \<open>The image proxy\<close>

text \<open>
  \<^verbatim>\<open>new URL(raw)\<close> is the platform's parser; the handler takes it as a parameter
  \<open>parse\<close>, \<open>None\<close> where the constructor throws, and reads the protocol and the
  host name of what it returns.
\<close>

record parsed_url =
  protocol :: string
  hostname :: string

definition ALLOWED_IMAGE_HOST_SUFFIXES :: "string list" where
  "ALLOWED_IMAGE_HOST_SUFFIXES = [''.pinimg.com'', ''.pinterest.com'', ''.unsplash.com'']"

definition toLowerCase :: "string \<Rightarrow> string" where
  "toLowerCase s =
     map (\<lambda>c. if c \<in> set ''ABCDEFGHIJKLMNOPQRSTUVWXYZ'' then char_of (of_char c + (32::nat)) else c) s"

definition endsWith :: "string \<Rightarrow> string \<Rightarrow> bool" where
  "endsWith h suf = (length suf \<le> length h \<and> drop (length h - length suf) h = suf)"

definition isAllowedImageHost :: "string \<Rightarrow> bool" where
  "isAllowedImageHost host =
     list_ex (\<lambda>suf. endsWith (toLowerCase host) suf) ALLOWED_IMAGE_HOST_SUFFIXES"

datatype proxy_reply = Rejected int string | Streamed string response

fun proxy_status :: "proxy_reply \<Rightarrow> int" where
  "proxy_status (Rejected st msg) = st"
| "proxy_status (Streamed ct res) = 200"

definition image_request :: "string \<Rightarrow> request" where
  "image_request raw = \<lparr>url = raw, page_size = None, bookmark = None, bearer = None\<rparr>"

text \<open>\<^verbatim>\<open>len && len > 25 * 1024 * 1024\<close> for \<^verbatim>\<open>len = contentLength ? Number(contentLength) : 0\<close>\<close>

definition too_large :: "string option \<Rightarrow> bool" where
  "too_large contentLength =
     (case (case contentLength of None \<Rightarrow> Fin 0 | Some s \<Rightarrow> if s = [] then Fin 0 else StringToNumber s) of
        NaN \<Rightarrow> False
      | Fin len \<Rightarrow> len \<noteq> 0 \<and> len > 25 * 1024 * 1024)"

text \<open>\<^verbatim>\<open>String(req.query.url || '').trim()\<close>\<close>

definition raw_url :: "string option \<Rightarrow> string" where
  "raw_url q = trim (case q of None \<Rightarrow> [] | Some s \<Rightarrow> s)"

definition image_proxy ::
  "(string \<Rightarrow> parsed_url option) \<Rightarrow> upstream \<Rightarrow> string option \<Rightarrow> trace \<Rightarrow> proxy_reply \<times> trace" where
  "image_proxy parse up q tr =
     (let raw = raw_url q in
      if raw = [] then (Rejected 400 ''url is required'', tr)
      else
        (case parse raw of
           None \<Rightarrow> (Rejected 400 ''invalid url'', tr)
         | Some u \<Rightarrow>
             if \<not> (protocol u = ''https:'' \<or> protocol u = ''http:'')
             then (Rejected 400 ''unsupported protocol'', tr)
             else if \<not> isAllowedImageHost (hostname u)
             then (Rejected 403 ''host not allowed'', tr)
             else
               (case fetchWithTimeout up (image_request raw) tr of
                  (Threw, tr') \<Rightarrow> (Rejected 502 ''image proxy failed'', tr')
                | (Resp res, tr') \<Rightarrow>
                    if \<not> ok res then (Rejected 502 ''upstream error'', tr')
                    else if too_large (content_length res) then (Rejected 413 ''image too large'', tr')
                    else
                      (Streamed
                         (case content_type res of
                            None \<Rightarrow> ''application/octet-stream''
                          | Some ct \<Rightarrow> if ct = [] then ''application/octet-stream'' else ct)
                         res, tr'))))"


text \<open>The error that \<^verbatim>\<open>fetchPinsPaged\<close> throws on a response that is not a success.\<close>

definition page_error :: "response \<Rightarrow> error" where
  "page_error res = PinterestApiError (status res) (case body_text res of Some t \<Rightarrow> t | None \<Rightarrow> [])"

text \<open>
  What the exchanges \<open>new\<close> of a run of the loop, started at turn \<open>loops\<close> with
  \<open>out\<close> and \<open>seen\<close> and ended with \<open>r\<close>, satisfy: at most as many as turns are
  left; every page but the last came with a bookmark; each request was made while
  the records accumulated so far were fewer than the limit; a response that is not a
  success made the call end with its error.
\<close>

definition loop_trace_ok ::
  "(nat \<Rightarrow> nat \<Rightarrow> string) \<Rightarrow> paged_args \<Rightarrow> pin list \<Rightarrow> string set \<Rightarrow> nat \<Rightarrow> (error + pin list) \<Rightarrow> trace \<Rightarrow> bool" where
  "loop_trace_ok rnd args out seen loops r new =
     (length new \<le> 50 - loops
      \<and> (\<forall>k. Suc k < length new \<longrightarrow> has_bookmark (snd (new ! k)))
      \<and> (\<forall>k < length new.
            len_lt (length (fst (replay (safeLimit args) rnd loops (take k new) out seen))) (safeLimit args))
      \<and> (\<forall>e \<in> set new. \<forall>res. snd e = Resp res \<and> \<not> ok res \<longrightarrow> r = Inl (page_error res)))"

text \<open>Upstreams and arguments used as concrete inputs below.\<close>

definition one_pin_page :: jsval where
  "one_pin_page = JObj
     [(''items'', JArr [JObj [(''id'', JStr ''p''), (''image_url'', JStr ''u'')]]),
      (''bookmark'', JStr ''again'')]"

definition json_response :: "jsval \<Rightarrow> response" where
  "json_response j = \<lparr>status = 200, body_text = None, body_json = Some j,
     content_type = None, content_length = None\<rparr>"

definition error_response :: "int \<Rightarrow> string \<Rightarrow> response" where
  "error_response st t = \<lparr>status = st, body_text = Some t, body_json = None,
     content_type = None, content_length = None\<rparr>"

definition looping_upstream :: upstream where
  "looping_upstream tr req = Resp (json_response one_pin_page)"

definition null_element_upstream :: upstream where
  "null_element_upstream tr req = Resp (json_response null_then_pin_page)"

definition failing_upstream :: upstream where
  "failing_upstream tr req =
     (if tr = [] then Resp (json_response one_pin_page) else Resp (error_response 500 ''boom''))"

definition three_args :: paged_args where
  "three_args = \<lparr>endpointBase = ''e'', accessToken = ''t'', limit = Fin 3\<rparr>"

text \<open>
  What \<^verbatim>\<open>new URL\<close> gives on three addresses, and two upstreams: one that declares
  an image of 30 MiB, one that answers 404.
\<close>

definition sample_parse :: "string \<Rightarrow> parsed_url option" where
  "sample_parse s =
     (if s = ''https://i.pinimg.com/x.png''
      then Some \<lparr>protocol = ''https:'', hostname = ''i.pinimg.com''\<rparr>
      else if s = ''https://evil.example.com/x.png''
      then Some \<lparr>protocol = ''https:'', hostname = ''evil.example.com''\<rparr>
      else if s = ''ftp://i.pinimg.com/x.png''
      then Some \<lparr>protocol = ''ftp:'', hostname = ''i.pinimg.com''\<rparr>
      else None)"

definition big_image :: response where
  "big_image = \<lparr>status = 200, body_text = None, body_json = None,
     content_type = Some ''image/png'', content_length = Some ''31457280''\<rparr>"

definition big_image_upstream :: upstream where
  "big_image_upstream tr req = Resp big_image"

definition not_found_upstream :: upstream where
  "not_found_upstream tr req = Resp (error_response 404 ''gone'')"

text \<open>
  Two readings of the loop over the boards, used to state what it did.
  \<open>board_outcomes\<close> lists what the fetch of each board gave, an error or its pins, for
  the boards the loop reached; \<open>merge_outcomes\<close> merges the pins of the successful
  ones into \<open>out\<close>, in their order.
\<close>

fun board_outcomes ::
  "upstream \<Rightarrow> (nat \<Rightarrow> nat \<Rightarrow> nat \<Rightarrow> string) \<Rightarrow> string \<Rightarrow> jsnum \<Rightarrow> nat \<Rightarrow> board list
   \<Rightarrow> pin list \<Rightarrow> string set \<Rightarrow> trace \<Rightarrow> (error + pin list) list" where
  "board_outcomes up rnd token lim i [] out seen tr = []"
| "board_outcomes up rnd token lim i (b # bs) out seen tr =
     (if len_ge (length out) lim then []
      else
        (case fetchPinsPaged up (rnd i)
                \<lparr>endpointBase = board_endpoint (id_board b), accessToken = token,
                 limit = board_limit lim out\<rparr> tr of
           (Inl e, tr') \<Rightarrow> Inl e # board_outcomes up rnd token lim (Suc i) bs out seen tr'
         | (Inr pins, tr') \<Rightarrow>
             (case push_unseen lim pins out seen of
                (out', seen') \<Rightarrow>
                  Inr pins # board_outcomes up rnd token lim (Suc i) bs out' seen' tr')))"

fun merge_outcomes ::
  "jsnum \<Rightarrow> (error + pin list) list \<Rightarrow> pin list \<Rightarrow> string set \<Rightarrow> pin list \<times> string set" where
  "merge_outcomes lim [] out seen = (out, seen)"
| "merge_outcomes lim (Inl e # rs) out seen = merge_outcomes lim rs out seen"
| "merge_outcomes lim (Inr pins # rs) out seen =
     (case push_unseen lim pins out seen of (out', seen') \<Rightarrow> merge_outcomes lim rs out' seen')"

fun pins_of :: "error + pin list \<Rightarrow> pin list" where
  "pins_of (Inl e) = []"
| "pins_of (Inr pins) = pins"

text \<open>The normalized pins of one page exchange; none when it is no page of JSON.\<close>

definition page_pins :: "request \<times> fetched \<Rightarrow> pin list" where
  "page_pins e =
     (case snd e of
        Threw \<Rightarrow> []
      | Resp res \<Rightarrow>
          (case body_json res of
             None \<Rightarrow> []
           | Some json \<Rightarrow> pins_of (normalizePinsFromPinterest (\<lambda>i. []) json)))"

text \<open>
  An account with the boards \<^verbatim>\<open>b1\<close>, \<^verbatim>\<open>bad\<close> and \<^verbatim>\<open>b2\<close>: the pins of
  \<^verbatim>\<open>bad\<close> answer 500, and the pin \<^verbatim>\<open>x\<close> is on both other boards.
\<close>

definition raw_pin :: "string \<Rightarrow> jsval" where
  "raw_pin i = JObj [(''id'', JStr i), (''image_url'', JStr (''img-'' @ i))]"

definition the_pin :: "string \<Rightarrow> pin" where
  "the_pin i = \<lparr>id_pin = i, title = JStr [], link = JNull, image_pin = JStr (''img-'' @ i)\<rparr>"

definition boards_page :: jsval where
  "boards_page = JObj [(''items'', JArr
     [JObj [(''id'', JStr ''b1'')], JObj [(''id'', JStr ''bad'')], JObj [(''id'', JStr ''b2'')]])]"

definition account_upstream :: upstream where
  "account_upstream tr req =
     (if url req = ''https://api.pinterest.com/v5/boards'' then Resp (json_response boards_page)
      else if url req = board_endpoint ''b1''
      then Resp (json_response (JObj [(''items'', JArr [raw_pin ''x'', raw_pin ''y''])]))
      else if url req = board_endpoint ''b2''
      then Resp (json_response (JObj [(''items'', JArr [raw_pin ''x'', raw_pin ''z''])]))
      else Resp (error_response 500 ''fail''))"

text \<open>
  An account with one board that never runs out of pins: every page has 50 new ones,
  numbered by the requests made so far, and a bookmark.
\<close>

definition numbered_page :: "nat \<Rightarrow> jsval" where
  "numbered_page k = JObj
     [(''items'', JArr (map (\<lambda>j. raw_pin (dec_int (50 * int k + int j))) [0..<50])),
      (''bookmark'', JStr ''more'')]"

definition endless_upstream :: upstream where
  "endless_upstream tr req =
     (if url req = ''https://api.pinterest.com/v5/boards''
      then Resp (json_response (JObj [(''items'', JArr [JObj [(''id'', JStr ''b1'')]])]))
      else Resp (json_response (numbered_page (length tr))))"

definition account_boards :: "board list" where
  "account_boards = [\<lparr>id_board = ''b1'', name = JStr []\<rparr>, \<lparr>id_board = ''bad'', name = JStr []\<rparr>,
     \<lparr>id_board = ''b2'', name = JStr []\<rparr>]"

section \<open>Lemmas\<close>

lemma best_loop_keeps:
  "(\<And>e. e \<in> set es \<Longrightarrow> usable e \<Longrightarrow> variant_score e \<le> bs) \<Longrightarrow> best_loop es bu bs = bu"
proof (induction es arbitrary: bu bs)
  case Nil
  then show ?case by simp
next
  case (Cons e es)
  have head: "usable e \<Longrightarrow> \<not> bs < variant_score e"
    using Cons.prems [of e] by simp
  have "best_loop es bu bs = bu"
    by (rule Cons.IH) (simp add: Cons.prems)
  with head show ?case by simp
qed

lemma best_loop_first_max:
  assumes "i < length es" and "usable (es ! i)" and "bs < variant_score (es ! i)"
    and "\<And>j. j < length es \<Longrightarrow> usable (es ! j) \<Longrightarrow> variant_score (es ! j) \<le> variant_score (es ! i)"
    and "\<And>j. j < i \<Longrightarrow> usable (es ! j) \<Longrightarrow> variant_score (es ! j) < variant_score (es ! i)"
  shows "best_loop es bu bs = variant_url (es ! i)"
  using assms
proof (induction es arbitrary: i bu bs)
  case Nil
  then show ?case by simp
next
  case (Cons e es)
  show ?case
  proof (cases i)
    case 0
    have later: "\<And>x. x \<in> set es \<Longrightarrow> usable x \<Longrightarrow> variant_score x \<le> variant_score e"
    proof -
      fix x assume "x \<in> set es" and u: "usable x"
      then obtain k where k: "k < length es" "es ! k = x"
        by (auto simp: in_set_conv_nth)
      from Cons.prems(4) [of "Suc k"] k u 0 show "variant_score x \<le> variant_score e"
        by simp
    qed
    from Cons.prems(2,3) 0 have "best_loop (e # es) bu bs = best_loop es (variant_url e) (variant_score e)"
      by simp
    also have "\<dots> = variant_url e"
      by (rule best_loop_keeps) (rule later)
    finally show ?thesis using 0 by simp
  next
    case (Suc k)
    have k: "k < length es" "usable (es ! k)"
      using Cons.prems(1,2) Suc by simp_all
    have le: "\<And>j. j < length es \<Longrightarrow> usable (es ! j) \<Longrightarrow> variant_score (es ! j) \<le> variant_score (es ! k)"
      using Cons.prems(4) [of "Suc _"] Suc by simp
    have lt: "\<And>j. j < k \<Longrightarrow> usable (es ! j) \<Longrightarrow> variant_score (es ! j) < variant_score (es ! k)"
      using Cons.prems(5) [of "Suc _"] Suc by simp
    have e: "usable e \<Longrightarrow> variant_score e < variant_score (es ! k)"
      using Cons.prems(5) [of 0] Suc by simp
    have bs: "bs < variant_score (es ! k)"
      using Cons.prems(3) Suc by simp
    have "best_loop (e # es) bu bs = variant_url (es ! k)"
    proof (cases "usable e \<and> variant_score e > bs")
      case True
      then have "best_loop (e # es) bu bs = best_loop es (variant_url e) (variant_score e)"
        by simp
      also have "\<dots> = variant_url (es ! k)"
        using True e by (intro Cons.IH k le lt) simp_all
      finally show ?thesis .
    next
      case False
      then have "best_loop (e # es) bu bs = best_loop es bu bs"
        by auto
      also have "\<dots> = variant_url (es ! k)"
        by (intro Cons.IH k le lt bs)
      finally show ?thesis .
    qed
    then show ?thesis using Suc by simp
  qed
qed

section \<open>The selector returns the first variant of highest score\<close>

text \<open>
  Claim C1, as the code has it. The score of a variant is width times height when
  both are numbers other than zero (a zero width or height counts as absent),
  otherwise the first run of digits in its key, otherwise 999999. Among the variants
  that have a truthy url and a score above -1, the selector returns the url of the
  one with the highest score, the first of them on a tie; it returns null when there
  is no such variant (so also for a value that is not an object).
\<close>

theorem pickBestImageVariant_first_max:
  "(first_max variant_score candidate (Object_entries images) i
      \<longrightarrow> pickBestImageVariant images = variant_url (Object_entries images ! i))
   \<and> ((\<forall>e \<in> set (Object_entries images). \<not> candidate e)
      \<longrightarrow> pickBestImageVariant images = JNull)"
proof (intro conjI impI)
  assume fm: "first_max variant_score candidate (Object_entries images) i"
  let ?es = "Object_entries images"
  from fm have i: "i < length ?es" and c: "candidate (?es ! i)"
    and le: "\<And>j. j < length ?es \<Longrightarrow> candidate (?es ! j) \<Longrightarrow> variant_score (?es ! j) \<le> variant_score (?es ! i)"
    and lt: "\<And>j. j < i \<Longrightarrow> candidate (?es ! j) \<Longrightarrow> variant_score (?es ! j) < variant_score (?es ! i)"
    by (simp_all add: first_max_def)
  from i have obj: "truthy images" "typeof images = ''object''"
    by (cases images; simp)+
  have "best_loop ?es JNull (- 1) = variant_url (?es ! i)"
  proof (rule best_loop_first_max [OF i])
    show "usable (?es ! i)" using c by (simp add: candidate_def)
    show "- 1 < variant_score (?es ! i)" using c by (simp add: candidate_def)
    show "variant_score (?es ! j) \<le> variant_score (?es ! i)" if "j < length ?es" "usable (?es ! j)" for j
      using le [OF that(1)] that(2) c by (cases "candidate (?es ! j)") (auto simp: candidate_def)
    show "variant_score (?es ! j) < variant_score (?es ! i)" if "j < i" "usable (?es ! j)" for j
      using lt [OF that(1)] that(2) c by (cases "candidate (?es ! j)") (auto simp: candidate_def)
  qed
  with obj show "pickBestImageVariant images = variant_url (?es ! i)"
    by (simp add: pickBestImageVariant_def)
next
  assume none: "\<forall>e \<in> set (Object_entries images). \<not> candidate e"
  have "best_loop (Object_entries images) JNull (- 1) = JNull"
    by (rule best_loop_keeps) (use none in \<open>auto simp: candidate_def\<close>)
  then show "pickBestImageVariant images = JNull"
    by (simp add: pickBestImageVariant_def)
qed

text \<open>
  The theorem at two inputs: three variants tie at 600 and the first wins; a map whose
  only variant has no url gives null.
\<close>

theorem pickBestImageVariant_first_max_witness:
  "first_max variant_score candidate (Object_entries tied_variants) 0
   \<and> pickBestImageVariant tied_variants = JStr ''a''
   \<and> list_all (\<lambda>e. \<not> candidate e) (Object_entries no_url_variants)
   \<and> pickBestImageVariant no_url_variants = JNull"
proof -
  have fm: "first_max variant_score candidate (Object_entries tied_variants) 0"
    unfolding tied_variants_def by code_simp
  have url: "variant_url (Object_entries tied_variants ! 0) = JStr ''a''"
    unfolding tied_variants_def by code_simp
  have none: "list_all (\<lambda>e. \<not> candidate e) (Object_entries no_url_variants)"
    unfolding no_url_variants_def by code_simp
  then have none': "\<forall>e \<in> set (Object_entries no_url_variants). \<not> candidate e"
    by (simp add: list_all_iff)
  from pickBestImageVariant_first_max [of tied_variants 0] fm url
  have "pickBestImageVariant tied_variants = JStr ''a''" by simp
  moreover from pickBestImageVariant_first_max [of no_url_variants 0] none'
  have "pickBestImageVariant no_url_variants = JNull" by blast
  ultimately show ?thesis using fm none by simp
qed

text \<open>
  The claim as worded scores a variant of numeric width and height by its area, zero
  included. On the map below the first variant has area 0 and the second area 100, so
  the second is the one of highest score; the code scores the first by its key
  (no digits: 999999) and returns its url.
\<close>

theorem pickBestImageVariant_zero_area_counterexample:
  "pickBestImageVariant zero_area_variants = JStr ''a''
   \<and> first_max spec_score usable (Object_entries zero_area_variants) 1
   \<and> variant_url (Object_entries zero_area_variants ! 1) = JStr ''b''"
  unfolding zero_area_variants_def by code_simp

section \<open>The normalizer\<close>

lemma pickBestImageVariant_falsy: "\<not> truthy v \<Longrightarrow> pickBestImageVariant v = JNull"
  by (simp add: pickBestImageVariant_def)

lemma pickImageUrlFromPin_spec_image: "pickImageUrlFromPin pin = spec_image pin"
proof (cases "truthy pin \<and> typeof pin = ''object''")
  case True
  then show ?thesis
    by (auto simp: pickImageUrlFromPin_def spec_image_def Let_def pickBestImageVariant_falsy)
next
  case False
  then have "\<And>k. get pin k = JUndefined"
    by (cases pin) auto
  with False show ?thesis
    by (simp add: pickImageUrlFromPin_def spec_image_def opt_get_def pickBestImageVariant_falsy)
qed

lemma normalize_pin_record:
  "p \<noteq> JNull \<Longrightarrow> p \<noteq> JUndefined \<Longrightarrow> truthy (pickImageUrlFromPin p)
   \<Longrightarrow> normalize_pin rnd p = Inr (record_of p)"
  by (simp add: normalize_pin_def record_of_def Let_def js_or_def)

lemma normalize_pin_image:
  "normalize_pin rnd p = Inr r \<Longrightarrow> image_pin r = pickImageUrlFromPin p"
  by (auto simp: normalize_pin_def Let_def split: if_splits)

lemma map_pins_records:
  "\<forall>p \<in> set ps. p \<noteq> JNull \<and> p \<noteq> JUndefined \<Longrightarrow>
   \<exists>rs. map_pins rnd i ps = Inr rs
     \<and> filter (\<lambda>r. truthy (image_pin r)) rs
         = map record_of (filter (\<lambda>p. truthy (pickImageUrlFromPin p)) ps)"
proof (induction ps arbitrary: i)
  case Nil
  then show ?case by simp
next
  case (Cons p ps)
  from Cons.prems have p: "p \<noteq> JNull" "p \<noteq> JUndefined" by simp_all
  from Cons.prems Cons.IH [of "Suc i"] obtain rs where
    rs: "map_pins rnd (Suc i) ps = Inr rs"
    "filter (\<lambda>r. truthy (image_pin r)) rs
       = map record_of (filter (\<lambda>p. truthy (pickImageUrlFromPin p)) ps)"
    by auto
  from p obtain r where r: "normalize_pin (rnd i) p = Inr r"
    by (auto simp: normalize_pin_def Let_def)
  show ?case
  proof (cases "truthy (pickImageUrlFromPin p)")
    case True
    with p r have "r = record_of p" by (simp add: normalize_pin_record)
    with True r rs show ?thesis
      by (simp add: record_of_def)
  next
    case False
    with r rs normalize_pin_image [OF r] show ?thesis by simp
  qed
qed

lemma map_pins_null:
  "JNull \<in> set ps \<or> JUndefined \<in> set ps \<Longrightarrow> map_pins rnd i ps = Inl TypeError"
proof (induction ps arbitrary: i)
  case Nil
  then show ?case by simp
next
  case (Cons p ps)
  show ?case
  proof (cases "p = JNull \<or> p = JUndefined")
    case True
    then show ?thesis by (auto simp: normalize_pin_def)
  next
    case False
    with Cons.prems have "JNull \<in> set ps \<or> JUndefined \<in> set ps" by auto
    from Cons.IH [OF this] have "map_pins rnd (Suc i) ps = Inl TypeError" .
    then show ?thesis
      by (auto simp: normalize_pin_def Let_def split: sum.splits if_splits)
  qed
qed

lemma normalizePinsFromPinterest_records:
  assumes "JNull \<notin> set (items_of json)" and "JUndefined \<notin> set (items_of json)"
  shows "normalizePinsFromPinterest rnd json
          = Inr (map record_of (filter (\<lambda>p. truthy (pickImageUrlFromPin p)) (items_of json)))"
proof -
  from assms have "\<forall>p \<in> set (items_of json). p \<noteq> JNull \<and> p \<noteq> JUndefined" by auto
  from map_pins_records [OF this, of rnd 0] show ?thesis
    by (auto simp: normalizePinsFromPinterest_def)
qed

lemma normalizePinsFromPinterest_null:
  "JNull \<in> set (items_of json) \<or> JUndefined \<in> set (items_of json)
   \<Longrightarrow> normalizePinsFromPinterest rnd json = Inl TypeError"
  by (simp add: normalizePinsFromPinterest_def map_pins_null)

text \<open>
  The image of a raw pin is the first of: the selector on
  \<^verbatim>\<open>media.images\<close>, the selector on \<^verbatim>\<open>images\<close>, \<^verbatim>\<open>image_url\<close>,
  \<^verbatim>\<open>thumbnail_url\<close> that yields something, else null. The normalizer of a
  collection reads \<^verbatim>\<open>items\<close>, empty when it is absent or not an array. When no
  element is null or undefined, it gives the records of the elements that have an
  image, in the order of the input, and leaves the others out. When one is, reading
  its id raises a TypeError.
\<close>

theorem normalizePinsFromPinterest_order:
  "pickImageUrlFromPin pin = spec_image pin
   \<and> ((\<forall>xs. opt_get json ''items'' \<noteq> JArr xs) \<longrightarrow> normalizePinsFromPinterest rnd json = Inr [])
   \<and> (JNull \<notin> set (items_of json) \<and> JUndefined \<notin> set (items_of json) \<longrightarrow>
        normalizePinsFromPinterest rnd json
          = Inr (map record_of (filter (\<lambda>p. truthy (spec_image p)) (items_of json))))
   \<and> (JNull \<in> set (items_of json) \<or> JUndefined \<in> set (items_of json) \<longrightarrow>
        normalizePinsFromPinterest rnd json = Inl TypeError)"
proof (intro conjI impI)
  show "pickImageUrlFromPin pin = spec_image pin"
    by (rule pickImageUrlFromPin_spec_image)
next
  assume "\<forall>xs. opt_get json ''items'' \<noteq> JArr xs"
  then have "items_of json = []"
    by (cases "opt_get json ''items''") (simp_all add: items_of_def)
  then show "normalizePinsFromPinterest rnd json = Inr []"
    by (simp add: normalizePinsFromPinterest_def)
next
  assume "JNull \<notin> set (items_of json) \<and> JUndefined \<notin> set (items_of json)"
  then have "normalizePinsFromPinterest rnd json
          = Inr (map record_of (filter (\<lambda>p. truthy (pickImageUrlFromPin p)) (items_of json)))"
    by (simp add: normalizePinsFromPinterest_records)
  then show "normalizePinsFromPinterest rnd json
          = Inr (map record_of (filter (\<lambda>p. truthy (spec_image p)) (items_of json)))"
    by (simp add: pickImageUrlFromPin_spec_image)
next
  assume "JNull \<in> set (items_of json) \<or> JUndefined \<in> set (items_of json)"
  then show "normalizePinsFromPinterest rnd json = Inl TypeError"
    by (rule normalizePinsFromPinterest_null)
qed

text \<open>
  The theorem on three bodies: one whose \<^verbatim>\<open>items\<close> is a string; one with five
  elements, of which the second (no image field) and the fourth (a number) are left
  out and the others keep their order; one with a null element.
\<close>

theorem normalizePinsFromPinterest_order_witness:
  "normalizePinsFromPinterest (\<lambda>i. ''r'') no_array_page = Inr []
   \<and> normalizePinsFromPinterest (\<lambda>i. ''r'') sample_page =
       Inr [\<lparr>id_pin = ''7'', title = JStr [], link = JNull, image_pin = JStr ''m''\<rparr>,
            \<lparr>id_pin = ''o'', title = JStr [], link = JNull, image_pin = JStr ''o''\<rparr>,
            \<lparr>id_pin = ''th2'', title = JStr ''d'', link = JNull, image_pin = JStr ''th2''\<rparr>]
   \<and> normalizePinsFromPinterest (\<lambda>i. ''r'') null_item_page = Inl TypeError"
proof -
  have a: "\<forall>xs. opt_get no_array_page ''items'' \<noteq> JArr xs"
    by (simp add: no_array_page_def opt_get_def)
  have b: "JNull \<notin> set (items_of sample_page) \<and> JUndefined \<notin> set (items_of sample_page)"
    by (simp add: sample_page_def items_of_def opt_get_def)
  have b': "map record_of (filter (\<lambda>p. truthy (spec_image p)) (items_of sample_page)) =
       [\<lparr>id_pin = ''7'', title = JStr [], link = JNull, image_pin = JStr ''m''\<rparr>,
        \<lparr>id_pin = ''o'', title = JStr [], link = JNull, image_pin = JStr ''o''\<rparr>,
        \<lparr>id_pin = ''th2'', title = JStr ''d'', link = JNull, image_pin = JStr ''th2''\<rparr>]"
    unfolding sample_page_def by code_simp
  have c: "JNull \<in> set (items_of null_item_page) \<or> JUndefined \<in> set (items_of null_item_page)"
    by (simp add: null_item_page_def items_of_def opt_get_def)
  from normalizePinsFromPinterest_order [of JNull no_array_page "\<lambda>i. ''r''"] a
  have 1: "normalizePinsFromPinterest (\<lambda>i. ''r'') no_array_page = Inr []" by blast
  from normalizePinsFromPinterest_order [of JNull sample_page "\<lambda>i. ''r''"] b b'
  have 2: "normalizePinsFromPinterest (\<lambda>i. ''r'') sample_page =
       Inr [\<lparr>id_pin = ''7'', title = JStr [], link = JNull, image_pin = JStr ''m''\<rparr>,
            \<lparr>id_pin = ''o'', title = JStr [], link = JNull, image_pin = JStr ''o''\<rparr>,
            \<lparr>id_pin = ''th2'', title = JStr ''d'', link = JNull, image_pin = JStr ''th2''\<rparr>]"
    by simp
  from normalizePinsFromPinterest_order [of JNull null_item_page "\<lambda>i. ''r''"] c
  have 3: "normalizePinsFromPinterest (\<lambda>i. ''r'') null_item_page = Inl TypeError" by blast
  from 1 2 3 show ?thesis by simp
qed

text \<open>The picker tests for a null pin and gives null for it.\<close>

lemma pickImageUrlFromPin_null: "pickImageUrlFromPin JNull = JNull"
  by (simp add: pickImageUrlFromPin_def)

text \<open>
  Claim C7 says that the normalizer of a collection maps each element of
  \<^verbatim>\<open>items\<close>, leaves out every pin with no resolvable image and keeps the others in
  the order of the input. A null element has no resolvable image, as the picker gives
  null for it. On the body \<^verbatim>\<open>{items: [null, {id: "1", image_url: "u"}]}\<close> the
  normalizer does not give the record of the second element, which it gives when that
  element stands alone: reading \<^verbatim>\<open>p.id\<close> of the null element raises a TypeError,
  and a paged fetch that receives this body ends with it.
\<close>

theorem normalizePinsFromPinterest_null_element:
  "normalizePinsFromPinterest rnd pin_only_page
       = Inr [\<lparr>id_pin = ''1'', title = JStr [], link = JNull, image_pin = JStr ''u''\<rparr>]
   \<and> normalizePinsFromPinterest rnd null_then_pin_page = Inl TypeError
   \<and> fst (fetchPinsPaged null_element_upstream rnd2 three_args []) = Inl TypeError"
proof -
  have 1: "normalizePinsFromPinterest rnd pin_only_page
       = Inr [\<lparr>id_pin = ''1'', title = JStr [], link = JNull, image_pin = JStr ''u''\<rparr>]"
    unfolding pin_only_page_def by code_simp
  have 2: "normalizePinsFromPinterest rnd null_then_pin_page = Inl TypeError"
    unfolding null_then_pin_page_def by code_simp
  have 3: "fst (fetchPinsPaged null_element_upstream rnd2 three_args []) = Inl TypeError"
    by code_simp
  from 1 2 3 show ?thesis by simp
qed

text \<open>
  Claim C10 says that every record of the output has a string for its image. An
  upstream pin whose \<^verbatim>\<open>image_url\<close> is the number 123 is kept with that number as
  its image, and the string of the number as its id.
\<close>

theorem normalizePinsFromPinterest_numeric_image:
  "normalizePinsFromPinterest rnd numeric_url_page
     = Inr [\<lparr>id_pin = ''123'', title = JStr [], link = JNull, image_pin = JNum 123\<rparr>]
   \<and> typeof (JNum 123) = ''number''"
proof -
  have "JNull \<notin> set (items_of numeric_url_page)" "JUndefined \<notin> set (items_of numeric_url_page)"
    by (simp_all add: numeric_url_page_def items_of_def opt_get_def)
  then have "normalizePinsFromPinterest rnd numeric_url_page
     = Inr (map record_of (filter (\<lambda>p. truthy (pickImageUrlFromPin p)) (items_of numeric_url_page)))"
    by (rule normalizePinsFromPinterest_records)
  also have "map record_of (filter (\<lambda>p. truthy (pickImageUrlFromPin p)) (items_of numeric_url_page))
     = [\<lparr>id_pin = ''123'', title = JStr [], link = JNull, image_pin = JNum 123\<rparr>]"
    unfolding numeric_url_page_def by code_simp
  finally show ?thesis by simp
qed

section \<open>The paged fetcher\<close>




lemma page_body_cases [case_names Threw NotOk NoJson BadItem Last More]:
  fixes up :: upstream
  defines "e \<equiv> \<lambda>args bm tr. (page_request args bm, up tr (page_request args bm))"
  obtains
    "up tr (page_request args bm) = Threw"
    "page_body up rnd args out seen bm tr = (Done (Inl FetchFailed), tr @ [e args bm tr])"
  | res where "up tr (page_request args bm) = Resp res" "\<not> ok res"
    "page_body up rnd args out seen bm tr =
       (Done (Inl (PinterestApiError (status res) (case body_text res of Some t \<Rightarrow> t | None \<Rightarrow> []))),
        tr @ [e args bm tr])"
  | res where "up tr (page_request args bm) = Resp res" "ok res" "body_json res = None"
    "page_body up rnd args out seen bm tr = (Done (Inl JsonError), tr @ [e args bm tr])"
  | res json err where "up tr (page_request args bm) = Resp res" "ok res" "body_json res = Some json"
    "normalizePinsFromPinterest rnd json = Inl err"
    "page_body up rnd args out seen bm tr = (Done (Inl err), tr @ [e args bm tr])"
  | res json ps out' seen' where "up tr (page_request args bm) = Resp res" "ok res"
    "body_json res = Some json" "normalizePinsFromPinterest rnd json = Inr ps"
    "push_unseen (safeLimit args) ps out seen = (out', seen')" "\<not> truthy (next_bookmark json)"
    "page_body up rnd args out seen bm tr = (Done (Inr (slice0 out' (safeLimit args))), tr @ [e args bm tr])"
  | res json ps out' seen' where "up tr (page_request args bm) = Resp res" "ok res"
    "body_json res = Some json" "normalizePinsFromPinterest rnd json = Inr ps"
    "push_unseen (safeLimit args) ps out seen = (out', seen')" "truthy (next_bookmark json)"
    "page_body up rnd args out seen bm tr = (Next out' seen' (next_bookmark json), tr @ [e args bm tr])"
proof (cases "up tr (page_request args bm)")
  case Threw
  then show ?thesis
    using that(1) by (simp add: page_body_def fetchWithTimeout_def e_def)
next
  case (Resp res)
  show ?thesis
  proof (cases "ok res")
    case False
    with Resp show ?thesis
      using that(2) by (simp add: page_body_def fetchWithTimeout_def e_def)
  next
    case True
    show ?thesis
    proof (cases "body_json res")
      case None
      with Resp True show ?thesis
        using that(3) by (simp add: page_body_def fetchWithTimeout_def e_def)
    next
      case (Some json)
      show ?thesis
      proof (cases "normalizePinsFromPinterest rnd json")
        case (Inl err)
        with Resp True Some show ?thesis
          using that(4) by (simp add: page_body_def fetchWithTimeout_def e_def)
      next
        case (Inr ps)
        obtain out' seen' where pu: "push_unseen (safeLimit args) ps out seen = (out', seen')"
          by (cases "push_unseen (safeLimit args) ps out seen")
        show ?thesis
        proof (cases "truthy (next_bookmark json)")
          case False
          with Resp True Some Inr pu show ?thesis
            using that(5) by (simp add: page_body_def fetchWithTimeout_def e_def)
        next
          case t: True
          with Resp True Some Inr pu show ?thesis
            using that(6) by (simp add: page_body_def fetchWithTimeout_def e_def)
        qed
      qed
    qed
  qed
qed




lemma fetch_loop_stop:
  "\<not> (len_lt (length out) (safeLimit args) \<and> loops < 50)
   \<Longrightarrow> fetch_loop up rnd args out seen bm loops tr = (Inr (slice0 out (safeLimit args)), tr)"
  by (subst fetch_loop.simps) auto

lemma fetch_loop_Done:
  "len_lt (length out) (safeLimit args) \<Longrightarrow> loops < 50
   \<Longrightarrow> page_body up (rnd loops) args out seen bm tr = (Done r, tr1)
   \<Longrightarrow> fetch_loop up rnd args out seen bm loops tr = (r, tr1)"
  by (subst fetch_loop.simps) simp

lemma fetch_loop_Next:
  "len_lt (length out) (safeLimit args) \<Longrightarrow> loops < 50
   \<Longrightarrow> page_body up (rnd loops) args out seen bm tr = (Next out' seen' bm', tr1)
   \<Longrightarrow> fetch_loop up rnd args out seen bm loops tr
       = fetch_loop up rnd args out' seen' bm' (Suc loops) tr1"
  by (subst fetch_loop.simps) simp

lemma fetch_loop_cases [case_names Stop Done Next]:
  assumes "\<And>up rnd args out seen bm loops tr.
      \<not> (len_lt (length out) (safeLimit args) \<and> loops < 50) \<Longrightarrow> P up rnd args out seen bm loops tr"
    and "\<And>up rnd args out seen bm loops tr r tr1.
      len_lt (length out) (safeLimit args) \<Longrightarrow> loops < 50
      \<Longrightarrow> page_body up (rnd loops) args out seen bm tr = (Done r, tr1)
      \<Longrightarrow> P up rnd args out seen bm loops tr"
    and "\<And>up rnd args out seen bm loops tr out' seen' bm' tr1.
      len_lt (length out) (safeLimit args) \<Longrightarrow> loops < 50
      \<Longrightarrow> page_body up (rnd loops) args out seen bm tr = (Next out' seen' bm', tr1)
      \<Longrightarrow> P up rnd args out' seen' bm' (Suc loops) tr1
      \<Longrightarrow> P up rnd args out seen bm loops tr"
  shows "P up rnd args out seen bm loops tr"
proof (induction up rnd args out seen bm loops tr rule: fetch_loop.induct)
  case (1 up rnd args out seen bm loops tr)
  show ?case
  proof (cases "len_lt (length out) (safeLimit args) \<and> loops < 50")
    case False
    then show ?thesis by (rule assms(1))
  next
    case True
    then have c1: "len_lt (length out) (safeLimit args)" and c2: "loops < 50"
      by simp_all
    obtain st tr1 where pb: "page_body up (rnd loops) args out seen bm tr = (st, tr1)"
      by (cases "page_body up (rnd loops) args out seen bm tr")
    show ?thesis
    proof (cases st)
      case (Done r)
      with pb have pb': "page_body up (rnd loops) args out seen bm tr = (Done r, tr1)"
        by simp
      show ?thesis
        by (rule assms(2)) (fact c1, fact c2, fact pb')
    next
      case (Next out' seen' bm')
      with pb have pb': "page_body up (rnd loops) args out seen bm tr = (Next out' seen' bm', tr1)"
        by simp
      from "1.IH" [OF True pb [symmetric] Next]
      have ih: "P up rnd args out' seen' bm' (Suc loops) tr1" .
      show ?thesis
        by (rule assms(3)) (fact c1, fact c2, fact pb', fact ih)
    qed
  qed
qed

lemmas page_body_cases_at =
  page_body_cases [where up = up and tr = tr and args = args and bm = bm and rnd = rnd
    and out = out and seen = seen] for up tr args bm rnd out seen

lemma page_body_Next:
  assumes "page_body up rnd args out seen bm tr = (Next out' seen' bm', tr')"
  obtains res json ps where "up tr (page_request args bm) = Resp res" "ok res"
    "body_json res = Some json" "normalizePinsFromPinterest rnd json = Inr ps"
    "push_unseen (safeLimit args) ps out seen = (out', seen')"
    "bm' = next_bookmark json" "truthy bm'"
    "tr' = tr @ [(page_request args bm, up tr (page_request args bm))]"
  by (rule page_body_cases_at [of up tr args bm rnd out seen]) (use assms that in auto)

lemma page_body_Done_trace:
  assumes "page_body up rnd args out seen bm tr = (Done r, tr')"
  shows "tr' = tr @ [(page_request args bm, up tr (page_request args bm))]"
  by (rule page_body_cases_at [of up tr args bm rnd out seen]) (use assms in auto)

lemma page_body_Done_not_ok:
  assumes "page_body up rnd args out seen bm tr = (Done r, tr')"
    and "up tr (page_request args bm) = Resp res" and "\<not> ok res"
  shows "r = Inl (PinterestApiError (status res) (case body_text res of Some t \<Rightarrow> t | None \<Rightarrow> []))"
  by (rule page_body_cases_at [of up tr args bm rnd out seen]) (use assms in auto)



lemma loop_trace_ok_Nil: "loop_trace_ok rnd args out seen loops r []"
  by (simp add: loop_trace_ok_def)

lemma loop_trace_ok_single:
  assumes "len_lt (length out) (safeLimit args)" "loops < 50"
    and "\<And>res. snd e = Resp res \<Longrightarrow> \<not> ok res \<Longrightarrow> r = Inl (page_error res)"
  shows "loop_trace_ok rnd args out seen loops r [e]"
  using assms by (auto simp: loop_trace_ok_def)

lemma loop_trace_ok_Cons:
  assumes c: "len_lt (length out) (safeLimit args)" "loops < 50"
    and e: "snd e = Resp res" "ok res" "body_json res = Some json"
      "normalizePinsFromPinterest (rnd loops) json = Inr ps"
      "push_unseen (safeLimit args) ps out seen = (out', seen')" "truthy (next_bookmark json)"
    and rest: "loop_trace_ok rnd args out' seen' (Suc loops) r new"
  shows "loop_trace_ok rnd args out seen loops r (e # new)"
proof -
  let ?lim = "safeLimit args"
  from rest have
    new: "length new \<le> 50 - Suc loops"
      "\<And>k. Suc k < length new \<Longrightarrow> has_bookmark (snd (new ! k))"
      "\<And>k. k < length new \<Longrightarrow> len_lt (length (fst (replay ?lim rnd (Suc loops) (take k new) out' seen'))) ?lim"
      "\<And>x res. x \<in> set new \<Longrightarrow> snd x = Resp res \<Longrightarrow> \<not> ok res \<Longrightarrow> r = Inl (page_error res)"
    by (auto simp: loop_trace_ok_def)
  have hb: "has_bookmark (snd e)"
    using e by (simp add: has_bookmark_def)
  have rp: "\<And>xs. replay ?lim rnd loops (e # xs) out seen = replay ?lim rnd (Suc loops) xs out' seen'"
    using e by (cases e) simp
  have 1: "length (e # new) \<le> 50 - loops"
    using new(1) c(2) by simp
  have 2: "has_bookmark (snd ((e # new) ! k))" if "Suc k < length (e # new)" for k
    using that hb new(2) by (cases k) auto
  have 3: "len_lt (length (fst (replay ?lim rnd loops (take k (e # new)) out seen))) ?lim"
    if "k < length (e # new)" for k
  proof (cases k)
    case 0
    with c(1) show ?thesis by simp
  next
    case (Suc j)
    with that new(3) [of j] show ?thesis by (simp add: rp)
  qed
  have 4: "r = Inl (page_error res')" if "x \<in> set (e # new)" "snd x = Resp res'" "\<not> ok res'" for x res'
  proof (cases "x = e")
    case True
    with that e(1,2) show ?thesis by simp
  next
    case False
    with that(1) have "x \<in> set new" by simp
    then show ?thesis by (rule new(4)) (fact that(2), fact that(3))
  qed
  show ?thesis
    unfolding loop_trace_ok_def using 1 2 3 4 by blast
qed

lemma fetch_loop_trace:
  "\<exists>new. snd (fetch_loop up rnd args out seen bm loops tr) = tr @ new
     \<and> loop_trace_ok rnd args out seen loops (fst (fetch_loop up rnd args out seen bm loops tr)) new"
proof (induction up rnd args out seen bm loops tr rule: fetch_loop_cases)
  case (Stop up rnd args out seen bm loops tr)
  then show ?case
    by (simp add: fetch_loop_stop loop_trace_ok_Nil)
next
  case (Done up rnd args out seen bm loops tr r tr1)
  let ?e = "(page_request args bm, up tr (page_request args bm))"
  have eq: "fetch_loop up rnd args out seen bm loops tr = (r, tr1)"
    by (rule fetch_loop_Done) (fact Done(1), fact Done(2), fact Done(3))
  have tr1: "tr1 = tr @ [?e]"
    by (rule page_body_Done_trace [OF Done(3)])
  have "loop_trace_ok rnd args out seen loops r [?e]"
  proof (rule loop_trace_ok_single [OF Done(1,2)])
    fix res assume "snd ?e = Resp res" "\<not> ok res"
    then show "r = Inl (page_error res)"
      using page_body_Done_not_ok [OF Done(3)] by (simp add: page_error_def)
  qed
  with eq tr1 show ?case by simp
next
  case (Next up rnd args out seen bm loops tr out' seen' bm' tr1)
  let ?e = "(page_request args bm, up tr (page_request args bm))"
  have eq: "fetch_loop up rnd args out seen bm loops tr
       = fetch_loop up rnd args out' seen' bm' (Suc loops) tr1"
    by (rule fetch_loop_Next) (fact Next(1), fact Next(2), fact Next(3))
  from Next(4) obtain new where
    new: "snd (fetch_loop up rnd args out' seen' bm' (Suc loops) tr1) = tr1 @ new"
      "loop_trace_ok rnd args out' seen' (Suc loops)
         (fst (fetch_loop up rnd args out' seen' bm' (Suc loops) tr1)) new"
    by blast
  from Next(3) obtain res json ps where
    step: "up tr (page_request args bm) = Resp res" "ok res" "body_json res = Some json"
      "normalizePinsFromPinterest (rnd loops) json = Inr ps"
      "push_unseen (safeLimit args) ps out seen = (out', seen')"
      "bm' = next_bookmark json" "truthy bm'"
      "tr1 = tr @ [?e]"
    by (rule page_body_Next)
  have "loop_trace_ok rnd args out seen loops
      (fst (fetch_loop up rnd args out' seen' bm' (Suc loops) tr1)) (?e # new)"
    by (rule loop_trace_ok_Cons [OF Next(1,2) _ step(2,3,4,5) _ new(2)])
       (use step in simp_all)
  with eq new(1) step(8) show ?case by simp
qed

lemma safeLimit_range: "\<exists>n. safeLimit args = Fin n \<and> 1 \<le> n \<and> n \<le> 500"
  by (cases "limit args") (auto simp: safeLimit_def or_zero_def js_max_def js_min_def)

text \<open>
  Claim C5. Whatever the upstream does, a call of \<^verbatim>\<open>fetchPinsPaged\<close> returns, and
  the exchanges \<open>new\<close> it has added to the trace are at most 50. Every page but the
  last came with a truthy bookmark, so the call makes no request after a page without
  one; and each request was made while the unique records accumulated from the
  pages before it were fewer than the clamped limit, a number from 1 to 500, so the
  call makes no request once the count has reached it.
\<close>

theorem fetchPinsPaged_page_requests:
  "\<exists>new. snd (fetchPinsPaged up rnd args tr) = tr @ new
     \<and> length new \<le> 50
     \<and> (\<forall>k. Suc k < length new \<longrightarrow> has_bookmark (snd (new ! k)))
     \<and> (\<forall>k < length new.
           len_lt (length (fst (replay (safeLimit args) rnd 0 (take k new) [] {}))) (safeLimit args))
     \<and> (\<exists>n. safeLimit args = Fin n \<and> 1 \<le> n \<and> n \<le> 500)"
proof -
  from fetch_loop_trace [of up rnd args "[]" "{}" JNull 0 tr] obtain new where
    "snd (fetchPinsPaged up rnd args tr) = tr @ new"
    "loop_trace_ok rnd args [] {} 0 (fst (fetchPinsPaged up rnd args tr)) new"
    by (auto simp: fetchPinsPaged_def)
  with safeLimit_range [of args] show ?thesis
    unfolding loop_trace_ok_def by auto
qed

text \<open>
  An upstream that answers every request with the same page, one pin and the bookmark
  \<^verbatim>\<open>again\<close>: the call for 3 pins stops after 50 requests with the one pin.
\<close>

theorem fetchPinsPaged_page_requests_witness:
  "(\<exists>new. snd (fetchPinsPaged looping_upstream (\<lambda>i j. []) three_args []) = [] @ new
      \<and> length new \<le> 50)
   \<and> length (snd (fetchPinsPaged looping_upstream (\<lambda>i j. []) three_args [])) = 50
   \<and> fst (fetchPinsPaged looping_upstream (\<lambda>i j. []) three_args [])
       = Inr [\<lparr>id_pin = ''p'', title = JStr [], link = JNull, image_pin = JStr ''u''\<rparr>]"
proof -
  from fetchPinsPaged_page_requests [of looping_upstream "\<lambda>i j. []" three_args "[]"]
  have "\<exists>new. snd (fetchPinsPaged looping_upstream (\<lambda>i j. []) three_args []) = [] @ new
      \<and> length new \<le> 50"
    by blast
  moreover have "length (snd (fetchPinsPaged looping_upstream (\<lambda>i j. []) three_args [])) = 50"
    by code_simp
  moreover have "fst (fetchPinsPaged looping_upstream (\<lambda>i j. []) three_args [])
       = Inr [\<lparr>id_pin = ''p'', title = JStr [], link = JNull, image_pin = JStr ''u''\<rparr>]"
    by code_simp
  ultimately show ?thesis by blast
qed

text \<open>
  Claim C6. If one of the exchanges that a call of \<^verbatim>\<open>fetchPinsPaged\<close> has added
  to the trace is a response whose status is not a success, the call ends with the
  error that carries that status and the text of that body (the empty string when the
  body cannot be read). The result is the error alone: it holds no record of the
  pages before.
\<close>

theorem fetchPinsPaged_error_status:
  "snd (fetchPinsPaged up rnd args tr) = tr @ new \<and> (req, Resp res) \<in> set new \<and> \<not> ok res
   \<longrightarrow> fst (fetchPinsPaged up rnd args tr)
        = Inl (PinterestApiError (status res) (case body_text res of Some t \<Rightarrow> t | None \<Rightarrow> []))"
proof (intro impI, elim conjE)
  assume new: "snd (fetchPinsPaged up rnd args tr) = tr @ new"
    and mem: "(req, Resp res) \<in> set new" and bad: "\<not> ok res"
  from fetch_loop_trace [of up rnd args "[]" "{}" JNull 0 tr] obtain new' where
    new': "snd (fetchPinsPaged up rnd args tr) = tr @ new'"
    "loop_trace_ok rnd args [] {} 0 (fst (fetchPinsPaged up rnd args tr)) new'"
    by (auto simp: fetchPinsPaged_def)
  from new new'(1) have "new' = new" by simp
  with new'(2) have "\<forall>e \<in> set new. \<forall>res. snd e = Resp res \<and> \<not> ok res \<longrightarrow>
      fst (fetchPinsPaged up rnd args tr) = Inl (page_error res)"
    by (simp add: loop_trace_ok_def)
  with mem bad have "fst (fetchPinsPaged up rnd args tr) = Inl (page_error res)"
    by force
  then show "fst (fetchPinsPaged up rnd args tr)
        = Inl (PinterestApiError (status res) (case body_text res of Some t \<Rightarrow> t | None \<Rightarrow> []))"
    by (simp add: page_error_def)
qed

text \<open>
  An upstream whose first page is a success with one pin and a bookmark and whose
  second page has status 500 and the body \<^verbatim>\<open>boom\<close>: the call ends with that error.
\<close>

theorem fetchPinsPaged_error_status_witness:
  "(page_request three_args (JStr ''again''), Resp (error_response 500 ''boom''))
      \<in> set (snd (fetchPinsPaged failing_upstream (\<lambda>i j. []) three_args []))
   \<and> \<not> ok (error_response 500 ''boom'')
   \<and> fst (fetchPinsPaged failing_upstream (\<lambda>i j. []) three_args [])
       = Inl (PinterestApiError 500 ''boom'')"
proof -
  have mem: "(page_request three_args (JStr ''again''), Resp (error_response 500 ''boom''))
      \<in> set (snd (fetchPinsPaged failing_upstream (\<lambda>i j. []) three_args []))"
    by code_simp
  have bad: "\<not> ok (error_response 500 ''boom'')"
    by (simp add: ok_def error_response_def)
  from fetchPinsPaged_error_status [of failing_upstream "\<lambda>i j. []" three_args "[]"
      "snd (fetchPinsPaged failing_upstream (\<lambda>i j. []) three_args [])"
      "page_request three_args (JStr ''again'')" "error_response 500 ''boom''"] mem bad
  have "fst (fetchPinsPaged failing_upstream (\<lambda>i j. []) three_args [])
       = Inl (PinterestApiError 500 ''boom'')"
    by (simp add: error_response_def)
  with mem bad show ?thesis by simp
qed

section \<open>The image proxy rejects\<close>

text \<open>
  Claim C4. The handler answers 400, without a request to the upstream, when the url
  parameter is empty after trimming, when the parser rejects it, or when the protocol
  of the parsed address is neither \<^verbatim>\<open>https:\<close> nor \<^verbatim>\<open>http:\<close>. For an address
  with one of the two protocols it answers 403, again without a request, when the
  host name in lower case ends with none of the allowed suffixes. For an allowed
  host, a response of the upstream with a status that is not a success is answered
  502; a successful response whose content-length header is a number above
  25 MiB is answered 413, a rejection that carries no body.
\<close>

theorem image_proxy_rejections:
  "((raw_url q = [] \<or> parse (raw_url q) = None
      \<or> (\<exists>u. parse (raw_url q) = Some u \<and> protocol u \<noteq> ''https:'' \<and> protocol u \<noteq> ''http:''))
     \<longrightarrow> proxy_status (fst (image_proxy parse up q tr)) = 400 \<and> snd (image_proxy parse up q tr) = tr)
   \<and> (raw_url q \<noteq> [] \<and> parse (raw_url q) = Some u
        \<and> (protocol u = ''https:'' \<or> protocol u = ''http:'') \<longrightarrow>
        ((\<forall>suf \<in> set ALLOWED_IMAGE_HOST_SUFFIXES. \<not> endsWith (toLowerCase (hostname u)) suf)
           \<longrightarrow> proxy_status (fst (image_proxy parse up q tr)) = 403
               \<and> snd (image_proxy parse up q tr) = tr)
        \<and> ((\<exists>suf \<in> set ALLOWED_IMAGE_HOST_SUFFIXES. endsWith (toLowerCase (hostname u)) suf) \<longrightarrow>
             (\<forall>res. up tr (image_request (raw_url q)) = Resp res \<and> \<not> ok res
                \<longrightarrow> fst (image_proxy parse up q tr) = Rejected 502 ''upstream error'')
           \<and> (\<forall>res s n. up tr (image_request (raw_url q)) = Resp res \<and> ok res
                  \<and> content_length res = Some s \<and> StringToNumber s = Fin n \<and> 25 * 1024 * 1024 < n
                \<longrightarrow> fst (image_proxy parse up q tr) = Rejected 413 ''image too large'')))"
proof (intro conjI impI allI)
  assume "raw_url q = [] \<or> parse (raw_url q) = None
      \<or> (\<exists>u. parse (raw_url q) = Some u \<and> protocol u \<noteq> ''https:'' \<and> protocol u \<noteq> ''http:'')"
  then show "proxy_status (fst (image_proxy parse up q tr)) = 400"
    and "snd (image_proxy parse up q tr) = tr"
    by (auto simp: image_proxy_def Let_def)
next
  assume u: "raw_url q \<noteq> [] \<and> parse (raw_url q) = Some u
        \<and> (protocol u = ''https:'' \<or> protocol u = ''http:'')"
  {
    assume "\<forall>suf \<in> set ALLOWED_IMAGE_HOST_SUFFIXES. \<not> endsWith (toLowerCase (hostname u)) suf"
    then have "\<not> isAllowedImageHost (hostname u)"
      by (simp add: isAllowedImageHost_def list_ex_iff)
    with u show "proxy_status (fst (image_proxy parse up q tr)) = 403"
      and "snd (image_proxy parse up q tr) = tr"
      by (auto simp: image_proxy_def Let_def)
  }
  assume "\<exists>suf \<in> set ALLOWED_IMAGE_HOST_SUFFIXES. endsWith (toLowerCase (hostname u)) suf"
  then have a: "isAllowedImageHost (hostname u)"
    by (simp add: isAllowedImageHost_def list_ex_iff)
  {
    fix res assume "up tr (image_request (raw_url q)) = Resp res \<and> \<not> ok res"
    with u a show "fst (image_proxy parse up q tr) = Rejected 502 ''upstream error''"
      by (auto simp: image_proxy_def Let_def fetchWithTimeout_def)
  }
  {
    fix res s n
    assume r: "up tr (image_request (raw_url q)) = Resp res \<and> ok res
       \<and> content_length res = Some s \<and> StringToNumber s = Fin n \<and> 25 * 1024 * 1024 < n"
    then have "s \<noteq> []" by (auto simp: StringToNumber_def trim_def)
    with r have "too_large (content_length res)"
      by (auto simp: too_large_def)
    with r u a show "fst (image_proxy parse up q tr) = Rejected 413 ''image too large''"
      by (auto simp: image_proxy_def Let_def fetchWithTimeout_def)
  }
qed

text \<open>
  The four rejections on the inputs of the specification: an ftp address, a host that
  is not allowed, an upstream that answers 404, an upstream that declares 30 MiB.
\<close>

theorem image_proxy_rejections_witness:
  "proxy_status (fst (image_proxy sample_parse big_image_upstream (Some ''ftp://i.pinimg.com/x.png'') [])) = 400
   \<and> proxy_status (fst (image_proxy sample_parse big_image_upstream (Some ''https://evil.example.com/x.png'') [])) = 403
   \<and> fst (image_proxy sample_parse not_found_upstream (Some ''https://i.pinimg.com/x.png'') [])
       = Rejected 502 ''upstream error''
   \<and> fst (image_proxy sample_parse big_image_upstream (Some ''https://i.pinimg.com/x.png'') [])
       = Rejected 413 ''image too large''"
proof -
  let ?ftp = "''ftp://i.pinimg.com/x.png''" and ?evil = "''https://evil.example.com/x.png''"
    and ?pin = "''https://i.pinimg.com/x.png''"
  let ?u = "\<lparr>protocol = ''https:'', hostname = ''i.pinimg.com''\<rparr>"
  let ?v = "\<lparr>protocol = ''https:'', hostname = ''evil.example.com''\<rparr>"
  have raw: "raw_url (Some ?ftp) = ?ftp" "raw_url (Some ?evil) = ?evil" "raw_url (Some ?pin) = ?pin"
    by code_simp+
  have ftp: "raw_url (Some ?ftp) = [] \<or> sample_parse (raw_url (Some ?ftp)) = None
      \<or> (\<exists>u. sample_parse (raw_url (Some ?ftp)) = Some u \<and> protocol u \<noteq> ''https:'' \<and> protocol u \<noteq> ''http:'')"
    by (simp add: raw sample_parse_def)
  have evil: "raw_url (Some ?evil) \<noteq> [] \<and> sample_parse (raw_url (Some ?evil)) = Some ?v
        \<and> (protocol ?v = ''https:'' \<or> protocol ?v = ''http:'')"
    by (simp add: raw sample_parse_def)
  have evil_host: "\<forall>suf \<in> set ALLOWED_IMAGE_HOST_SUFFIXES. \<not> endsWith (toLowerCase (hostname ?v)) suf"
    by code_simp
  have pin: "raw_url (Some ?pin) \<noteq> [] \<and> sample_parse (raw_url (Some ?pin)) = Some ?u
        \<and> (protocol ?u = ''https:'' \<or> protocol ?u = ''http:'')"
    by (simp add: raw sample_parse_def)
  have pin_host: "\<exists>suf \<in> set ALLOWED_IMAGE_HOST_SUFFIXES. endsWith (toLowerCase (hostname ?u)) suf"
    by code_simp
  have nf: "not_found_upstream [] (image_request (raw_url (Some ?pin))) = Resp (error_response 404 ''gone'')
      \<and> \<not> ok (error_response 404 ''gone'')"
    by (simp add: not_found_upstream_def ok_def error_response_def)
  have num: "StringToNumber ''31457280'' = Fin 31457280"
    by code_simp
  have big: "big_image_upstream [] (image_request (raw_url (Some ?pin))) = Resp big_image \<and> ok big_image
      \<and> content_length big_image = Some ''31457280'' \<and> StringToNumber ''31457280'' = Fin 31457280
      \<and> 25 * 1024 * 1024 < (31457280::int)"
    by (simp add: big_image_upstream_def ok_def big_image_def num)
  note a = image_proxy_rejections [where q = "Some ?ftp" and parse = sample_parse
      and up = big_image_upstream and tr = "[]" and u = ?u]
  note b = image_proxy_rejections [where q = "Some ?evil" and parse = sample_parse
      and up = big_image_upstream and tr = "[]" and u = ?v]
  note c = image_proxy_rejections [where q = "Some ?pin" and parse = sample_parse
      and up = not_found_upstream and tr = "[]" and u = ?u]
  note d = image_proxy_rejections [where q = "Some ?pin" and parse = sample_parse
      and up = big_image_upstream and tr = "[]" and u = ?u]
  from a [THEN conjunct1, THEN mp, OF ftp]
  have 1: "proxy_status (fst (image_proxy sample_parse big_image_upstream (Some ?ftp) [])) = 400"
    by (rule conjunct1)
  from b [THEN conjunct2, THEN mp, OF evil, THEN conjunct1, THEN mp, OF evil_host]
  have 2: "proxy_status (fst (image_proxy sample_parse big_image_upstream (Some ?evil) [])) = 403"
    by (rule conjunct1)
  from c [THEN conjunct2, THEN mp, OF pin, THEN conjunct2, THEN mp, OF pin_host, THEN conjunct1,
      THEN spec, THEN mp, OF nf]
  have 3: "fst (image_proxy sample_parse not_found_upstream (Some ?pin) []) = Rejected 502 ''upstream error''" .
  from d [THEN conjunct2, THEN mp, OF pin, THEN conjunct2, THEN mp, OF pin_host, THEN conjunct2,
      THEN spec, THEN spec, THEN spec, THEN mp, OF big]
  have 4: "fst (image_proxy sample_parse big_image_upstream (Some ?pin) []) = Rejected 413 ''image too large''" .
  from 1 2 3 4 show ?thesis by (intro conjI)
qed

section \<open>The aggregation over the boards\<close>

lemma push_unseen_subseq:
  "push_unseen lim ps out seen = (out', seen') \<Longrightarrow> \<exists>zs. out' = out @ zs \<and> subseq zs ps"
proof (induction lim ps out seen rule: push_unseen.induct)
  case (1 lim out seen)
  then show ?case by simp
next
  case (2 lim p ps out seen)
  show ?case
  proof (cases "len_ge (length out) lim")
    case True
    with "2.prems" show ?thesis by simp
  next
    case full: False
    show ?thesis
    proof (cases "id_pin p \<in> seen")
      case True
      with full "2.prems" "2.IH"(1) obtain zs where "out' = out @ zs" "subseq zs ps"
        by auto
      then show ?thesis by (auto intro: subseq_Cons')
    next
      case False
      with full "2.prems" "2.IH"(2) obtain zs where "out' = (out @ [p]) @ zs" "subseq zs ps"
        by auto
      then have "out' = out @ (p # zs)" "subseq (p # zs) (p # ps)" by simp_all
      then show ?thesis by blast
    qed
  qed
qed

lemma collect_boards_merge:
  "fst (collect_boards up rnd t lim i bs out seen tr)
     = merge_outcomes lim (board_outcomes up rnd t lim i bs out seen tr) out seen"
proof (induction bs arbitrary: i out seen tr)
  case Nil
  show ?case by simp
next
  case (Cons b bs)
  let ?args = "\<lparr>endpointBase = board_endpoint (id_board b), accessToken = t,
                 limit = board_limit lim out\<rparr>"
  show ?case
  proof (cases "len_ge (length out) lim")
    case True
    then show ?thesis by simp
  next
    case False
    obtain r tr' where f: "fetchPinsPaged up (rnd i) ?args tr = (r, tr')"
      by (cases "fetchPinsPaged up (rnd i) ?args tr")
    show ?thesis
    proof (cases r)
      case (Inl e)
      with False f Cons.IH [of "Suc i" out seen tr'] show ?thesis by simp
    next
      case (Inr pins)
      obtain out' seen' where p: "push_unseen lim pins out seen = (out', seen')"
        by (cases "push_unseen lim pins out seen")
      with False f Inr Cons.IH [of "Suc i" out' seen' tr'] show ?thesis by simp
    qed
  qed
qed


lemma merge_outcomes_subseq:
  "merge_outcomes lim rs out seen = (out', seen')
   \<Longrightarrow> \<exists>zs. out' = out @ zs \<and> subseq zs (concat (map pins_of rs))"
proof (induction lim rs out seen rule: merge_outcomes.induct)
  case (1 lim out seen)
  then show ?case by simp
next
  case (2 lim e rs out seen)
  then show ?case by simp
next
  case (3 lim pins rs out seen)
  obtain o1 s1 where p: "push_unseen lim pins out seen = (o1, s1)"
    by (cases "push_unseen lim pins out seen")
  from push_unseen_subseq [OF p] obtain ys where ys: "o1 = out @ ys" "subseq ys pins" by blast
  from "3.IH" [OF p [symmetric]] "3.prems" p obtain zs where
    zs: "out' = o1 @ zs" "subseq zs (concat (map pins_of rs))" by auto
  from ys zs have "out' = out @ (ys @ zs)" "subseq (ys @ zs) (pins @ concat (map pins_of rs))"
    by (simp_all add: list_emb_append_mono)
  then show ?case by auto
qed

lemma board_outcomes_all:
  "length (board_outcomes up rnd t lim i bs out seen tr) = length bs
   \<or> len_ge (length (fst (fst (collect_boards up rnd t lim i bs out seen tr)))) lim"
proof (induction bs arbitrary: i out seen tr)
  case Nil
  show ?case by simp
next
  case (Cons b bs)
  let ?args = "\<lparr>endpointBase = board_endpoint (id_board b), accessToken = t,
                 limit = board_limit lim out\<rparr>"
  show ?case
  proof (cases "len_ge (length out) lim")
    case True
    then show ?thesis by simp
  next
    case False
    obtain r tr' where f: "fetchPinsPaged up (rnd i) ?args tr = (r, tr')"
      by (cases "fetchPinsPaged up (rnd i) ?args tr")
    show ?thesis
    proof (cases r)
      case (Inl e)
      with False f Cons.IH [of "Suc i" out seen tr'] show ?thesis by auto
    next
      case (Inr pins)
      obtain out' seen' where p: "push_unseen lim pins out seen = (out', seen')"
        by (cases "push_unseen lim pins out seen")
      with False f Inr Cons.IH [of "Suc i" out' seen' tr'] show ?thesis by auto
    qed
  qed
qed

lemma me_pins_items:
  assumes "t \<noteq> []" and "boards_loop up t [] JNull 0 tr = (Inr boards, tr')"
  shows "fst (me_pins up rnd (Some t) lim tr)
     = Items (slice0 (fst (merge_outcomes lim (board_outcomes up rnd t lim 0 boards [] {} tr') [] {})) lim)"
proof (cases "boards = []")
  case True
  with assms show ?thesis
    by (cases lim) (simp_all add: me_pins_def slice0_def)
next
  case False
  obtain out seen tr'' where c: "collect_boards up rnd t lim 0 boards [] {} tr' = ((out, seen), tr'')"
    by (cases "collect_boards up rnd t lim 0 boards [] {} tr'") auto
  from collect_boards_merge [of up rnd t lim 0 boards "[]" "{}" tr']
  have "merge_outcomes lim (board_outcomes up rnd t lim 0 boards [] {} tr') [] {} = (out, seen)"
    unfolding c by simp
  then have "fst (merge_outcomes lim (board_outcomes up rnd t lim 0 boards [] {} tr') [] {}) = out"
    by simp
  with assms False c show ?thesis
    by (simp add: me_pins_def)
qed

lemma me_pins_cases:
  "fst (me_pins up rnd tok lim tr) = Items items \<Longrightarrow>
   \<exists>t boards tr'. tok = Some t \<and> t \<noteq> [] \<and> boards_loop up t [] JNull 0 tr = (Inr boards, tr')"
  by (auto simp: me_pins_def split: option.splits if_splits prod.splits sum.splits)









text \<open>
  Claim C3. Once the boards are listed, the answer is the items with status 200,
  whatever the fetches of the boards do: the items are the merge of the outcomes of
  the boards, in which the pins of the successful fetches are merged in their order
  and a failed fetch adds nothing; and every board has been tried unless the limit
  was reached before. In the loop itself, a board whose fetch fails (a thrown error,
  or a status that is not a success) leaves \<^verbatim>\<open>out\<close> and \<^verbatim>\<open>seen\<close> as they are, and
  the loop goes on with the remaining boards.
\<close>

theorem me_pins_board_failure:
  "(t \<noteq> [] \<and> boards_loop up t [] JNull 0 tr = (Inr boards, tr') \<longrightarrow>
      fst (me_pins up rnd (Some t) lim tr)
        = Items (slice0 (fst (merge_outcomes lim (board_outcomes up rnd t lim 0 boards [] {} tr') [] {})) lim)
      \<and> reply_status (fst (me_pins up rnd (Some t) lim tr)) = 200
      \<and> (length (board_outcomes up rnd t lim 0 boards [] {} tr') = length boards
          \<or> len_ge (length (fst (merge_outcomes lim (board_outcomes up rnd t lim 0 boards [] {} tr') [] {}))) lim))
   \<and> (\<not> len_ge (length out) lim
        \<and> fst (fetchPinsPaged up (rnd i)
                 \<lparr>endpointBase = board_endpoint (id_board b), accessToken = t,
                  limit = board_limit lim out\<rparr> tr1) = Inl e \<longrightarrow>
      collect_boards up rnd t lim i (b # bs) out seen tr1
        = collect_boards up rnd t lim (Suc i) bs out seen
            (snd (fetchPinsPaged up (rnd i)
                    \<lparr>endpointBase = board_endpoint (id_board b), accessToken = t,
                     limit = board_limit lim out\<rparr> tr1)))"
proof (intro conjI impI)
  assume a: "t \<noteq> [] \<and> boards_loop up t [] JNull 0 tr = (Inr boards, tr')"
  then have t: "t \<noteq> []" and b: "boards_loop up t [] JNull 0 tr = (Inr boards, tr')"
    by simp_all
  let ?rs = "board_outcomes up rnd t lim 0 boards [] {} tr'"
  show items: "fst (me_pins up rnd (Some t) lim tr)
        = Items (slice0 (fst (merge_outcomes lim ?rs [] {})) lim)"
    by (rule me_pins_items [OF t b])
  then show "reply_status (fst (me_pins up rnd (Some t) lim tr)) = 200"
    by simp
  from board_outcomes_all [of up rnd t lim 0 boards "[]" "{}" tr']
  show "length ?rs = length boards \<or> len_ge (length (fst (merge_outcomes lim ?rs [] {}))) lim"
    by (simp add: collect_boards_merge)
next
  let ?args = "\<lparr>endpointBase = board_endpoint (id_board b), accessToken = t,
                  limit = board_limit lim out\<rparr>"
  assume "\<not> len_ge (length out) lim \<and> fst (fetchPinsPaged up (rnd i) ?args tr1) = Inl e"
  then show "collect_boards up rnd t lim i (b # bs) out seen tr1
        = collect_boards up rnd t lim (Suc i) bs out seen (snd (fetchPinsPaged up (rnd i) ?args tr1))"
    by (cases "fetchPinsPaged up (rnd i) ?args tr1") simp
qed

text \<open>
  The account whose second board answers 500: the outcomes are the pins of the first
  board, the error, the pins of the third; the answer holds the pins of the first and
  the third board.
\<close>

theorem me_pins_board_failure_witness:
  "fst (boards_loop account_upstream ''t'' [] JNull 0 []) = Inr account_boards
   \<and> board_outcomes account_upstream (\<lambda>i j k. []) ''t'' (Fin 120) 0 account_boards [] {}
        (snd (boards_loop account_upstream ''t'' [] JNull 0 []))
       = [Inr [the_pin ''x'', the_pin ''y''], Inl (PinterestApiError 500 ''fail''),
          Inr [the_pin ''x'', the_pin ''z'']]
   \<and> fst (me_pins account_upstream (\<lambda>i j k. []) (Some ''t'') (Fin 120) [])
       = Items [the_pin ''x'', the_pin ''y'', the_pin ''z'']
   \<and> reply_status (fst (me_pins account_upstream (\<lambda>i j k. []) (Some ''t'') (Fin 120) [])) = 200
   \<and> fst (fst (collect_boards account_upstream (\<lambda>i j k. []) ''t'' (Fin 120) 1
        [\<lparr>id_board = ''bad'', name = JStr []\<rparr>, \<lparr>id_board = ''b2'', name = JStr []\<rparr>]
        [the_pin ''y''] {''y''} []))
       = [the_pin ''y'', the_pin ''x'', the_pin ''z'']"
proof -
  let ?up = account_upstream and ?rnd = "\<lambda>i j k. []"
  let ?tr' = "snd (boards_loop ?up ''t'' [] JNull 0 [])"
  let ?bad = "\<lparr>id_board = ''bad'', name = JStr []\<rparr>" and ?b2 = "\<lparr>id_board = ''b2'', name = JStr []\<rparr>"
  let ?args = "\<lparr>endpointBase = board_endpoint (id_board ?bad), accessToken = ''t'',
                  limit = board_limit (Fin 120) [the_pin ''y'']\<rparr>"
  have boards: "fst (boards_loop ?up ''t'' [] JNull 0 []) = Inr account_boards"
    by code_simp
  then have h1: "''t'' \<noteq> [] \<and> boards_loop ?up ''t'' [] JNull 0 [] = (Inr account_boards, ?tr')"
    by (simp add: prod_eq_iff)
  have outcomes: "board_outcomes ?up ?rnd ''t'' (Fin 120) 0 account_boards [] {} ?tr'
       = [Inr [the_pin ''x'', the_pin ''y''], Inl (PinterestApiError 500 ''fail''),
          Inr [the_pin ''x'', the_pin ''z'']]"
    by code_simp
  have merged: "slice0 (fst (merge_outcomes (Fin 120)
        [Inr [the_pin ''x'', the_pin ''y''], Inl (PinterestApiError 500 ''fail''),
         Inr [the_pin ''x'', the_pin ''z'']] [] {})) (Fin 120)
      = [the_pin ''x'', the_pin ''y'', the_pin ''z'']"
    by code_simp
  have h2: "\<not> len_ge (length [the_pin ''y'']) (Fin 120)
      \<and> fst (fetchPinsPaged ?up (?rnd 1) ?args []) = Inl (PinterestApiError 500 ''fail'')"
    by code_simp
  have rest: "fst (fst (collect_boards ?up ?rnd ''t'' (Fin 120) (Suc 1) [?b2] [the_pin ''y''] {''y''}
        (snd (fetchPinsPaged ?up (?rnd 1) ?args []))))
      = [the_pin ''y'', the_pin ''x'', the_pin ''z'']"
    by code_simp
  note T = me_pins_board_failure [where t = "''t''" and up = ?up and tr = "[]"
      and boards = account_boards and tr' = ?tr' and rnd = ?rnd and lim = "Fin 120"
      and out = "[the_pin ''y'']" and i = 1 and b = ?bad and ?tr1.0 = "[]"
      and e = "PinterestApiError 500 ''fail''" and bs = "[?b2]" and seen = "{''y''}"]
  note U = T [THEN conjunct1, THEN mp, OF h1]
  from U [THEN conjunct1]
  have items: "fst (me_pins ?up ?rnd (Some ''t'') (Fin 120) [])
      = Items [the_pin ''x'', the_pin ''y'', the_pin ''z'']"
    by (simp only: outcomes merged)
  from U [THEN conjunct2, THEN conjunct1]
  have st: "reply_status (fst (me_pins ?up ?rnd (Some ''t'') (Fin 120) [])) = 200" .
  from T [THEN conjunct2, THEN mp, OF h2] rest
  have skip: "fst (fst (collect_boards ?up ?rnd ''t'' (Fin 120) 1 [?bad, ?b2] [the_pin ''y''] {''y''} []))
       = [the_pin ''y'', the_pin ''x'', the_pin ''z'']"
    by simp
  from boards outcomes items st skip show ?thesis by (intro conjI)
qed

section \<open>Limits and order\<close>

lemma slice0_subseq: "subseq (slice0 xs l) xs"
  by (cases l) (auto simp: slice0_def intro!: prefix_imp_subseq take_is_prefix)

lemma slice0_length: "0 \<le> n \<Longrightarrow> int (length (slice0 xs (Fin n))) \<le> n"
  by (auto simp: slice0_def)

lemma normalizePinsFromPinterest_rnd:
  assumes "normalizePinsFromPinterest rnd json = Inr qs"
  shows "normalizePinsFromPinterest rnd' json = Inr qs"
proof (cases "JNull \<in> set (items_of json) \<or> JUndefined \<in> set (items_of json)")
  case True
  with assms show ?thesis by (simp add: normalizePinsFromPinterest_null)
next
  case False
  with assms show ?thesis by (simp add: normalizePinsFromPinterest_records)
qed

lemma page_pins_eq:
  assumes "f = Resp res" "body_json res = Some json" "normalizePinsFromPinterest rnd json = Inr qs"
  shows "page_pins (req, f) = qs"
  using assms normalizePinsFromPinterest_rnd [OF assms(3), of "\<lambda>i. []"]
  by (simp add: page_pins_def)

lemma page_body_Last:
  assumes "page_body up rnd args out seen bm tr = (Done (Inr ps), tr')"
  obtains res json qs out' seen' where "up tr (page_request args bm) = Resp res"
    "body_json res = Some json" "normalizePinsFromPinterest rnd json = Inr qs"
    "push_unseen (safeLimit args) qs out seen = (out', seen')"
    "ps = slice0 out' (safeLimit args)"
    "tr' = tr @ [(page_request args bm, up tr (page_request args bm))]"
  by (rule page_body_cases_at [of up tr args bm rnd out seen]) (use assms that in auto)

lemma fetch_loop_subseq:
  "fetch_loop up rnd args out seen bm loops tr = (Inr ps, tr @ new)
   \<Longrightarrow> \<exists>zs. ps = slice0 (out @ zs) (safeLimit args) \<and> subseq zs (concat (map page_pins new))"
proof (induction up rnd args out seen bm loops tr arbitrary: new rule: fetch_loop_cases)
  case (Stop up rnd args out seen bm loops tr)
  then have "ps = slice0 (out @ []) (safeLimit args) \<and> subseq [] (concat (map page_pins new))"
    by (simp add: fetch_loop_stop)
  then show ?case by (rule exI)
next
  case (Done up rnd args out seen bm loops tr r tr1)
  let ?e = "(page_request args bm, up tr (page_request args bm))"
  have "fetch_loop up rnd args out seen bm loops tr = (r, tr1)"
    by (rule fetch_loop_Done) (fact Done(1), fact Done(2), fact Done(3))
  with Done(4) have r: "r = Inr ps" and tr1: "tr1 = tr @ new" by simp_all
  from Done(3) [unfolded r] obtain res json qs out' seen' where
    step: "up tr (page_request args bm) = Resp res"
      "body_json res = Some json" "normalizePinsFromPinterest (rnd loops) json = Inr qs"
      "push_unseen (safeLimit args) qs out seen = (out', seen')"
      "ps = slice0 out' (safeLimit args)" "tr1 = tr @ [?e]"
    by (rule page_body_Last)
  from push_unseen_subseq [OF step(4)] obtain zs where zs: "out' = out @ zs" "subseq zs qs"
    by blast
  from step(6) tr1 have new: "new = [?e]" by simp
  have "page_pins ?e = qs"
    by (rule page_pins_eq [OF step(1,2,3)])
  with new zs step(5)
  have "ps = slice0 (out @ zs) (safeLimit args) \<and> subseq zs (concat (map page_pins new))"
    by simp
  then show ?case by (rule exI)
next
  case (Next up rnd args out seen bm loops tr out' seen' bm' tr1)
  let ?e = "(page_request args bm, up tr (page_request args bm))"
  have eq: "fetch_loop up rnd args out seen bm loops tr
       = fetch_loop up rnd args out' seen' bm' (Suc loops) tr1"
    by (rule fetch_loop_Next) (fact Next(1), fact Next(2), fact Next(3))
  from Next(3) obtain res json qs where
    step: "up tr (page_request args bm) = Resp res" "ok res" "body_json res = Some json"
      "normalizePinsFromPinterest (rnd loops) json = Inr qs"
      "push_unseen (safeLimit args) qs out seen = (out', seen')"
      "bm' = next_bookmark json" "truthy bm'"
      "tr1 = tr @ [?e]"
    by (rule page_body_Next)
  from fetch_loop_trace [of up rnd args out' seen' bm' "Suc loops" tr1] obtain new' where
    "snd (fetch_loop up rnd args out' seen' bm' (Suc loops) tr1) = tr1 @ new'"
    by blast
  with eq Next(5) step(8) have new: "new = ?e # new'"
    and run: "fetch_loop up rnd args out' seen' bm' (Suc loops) tr1 = (Inr ps, tr1 @ new')"
    by (simp_all add: prod_eq_iff)
  from Next(4) [OF run] obtain zs where
    zs: "ps = slice0 (out' @ zs) (safeLimit args)" "subseq zs (concat (map page_pins new'))"
    by blast
  from push_unseen_subseq [OF step(5)] obtain ys where ys: "out' = out @ ys" "subseq ys qs"
    by blast
  have pp: "page_pins ?e = qs"
    by (rule page_pins_eq [OF step(1,3,4)])
  from ys zs have "ps = slice0 (out @ (ys @ zs)) (safeLimit args)"
    "subseq (ys @ zs) (qs @ concat (map page_pins new'))"
    by (simp_all add: list_emb_append_mono)
  with new pp
  have "ps = slice0 (out @ (ys @ zs)) (safeLimit args)
      \<and> subseq (ys @ zs) (concat (map page_pins new))"
    by simp
  then show ?case by (rule exI)
qed

lemma fetch_loop_length:
  assumes "fst (fetch_loop up rnd args out seen bm loops tr) = Inr ps" and "safeLimit args = Fin n"
  shows "int (length ps) \<le> n"
proof -
  from fetch_loop_trace [of up rnd args out seen bm loops tr] obtain new where
    "snd (fetch_loop up rnd args out seen bm loops tr) = tr @ new" by blast
  with assms(1) have "fetch_loop up rnd args out seen bm loops tr = (Inr ps, tr @ new)"
    by (simp add: prod_eq_iff)
  from fetch_loop_subseq [OF this] obtain zs where "ps = slice0 (out @ zs) (safeLimit args)"
    by blast
  moreover from safeLimit_range [of args] assms(2) have "0 \<le> n" by simp
  ultimately show ?thesis using assms(2) by (simp add: slice0_length)
qed

lemma board_limit_safe:
  "\<not> len_ge (length out) (Fin n) \<Longrightarrow>
   safeLimit \<lparr>endpointBase = e, accessToken = t, limit = board_limit (Fin n) out\<rparr>
     = Fin (min 200 (n - int (length out)))"
  by (auto simp: safeLimit_def board_limit_def js_min_def js_max_def js_minus_def or_zero_def len_ge_def)

lemma subseq_length: "subseq xs ys \<Longrightarrow> length xs \<le> length ys"
  by (rule list_emb_length)

lemma single_board_at_most_200:
  assumes t: "t \<noteq> []" and b: "boards_loop up t [] JNull 0 tr = (Inr [b], tr')"
    and n: "1 \<le> n"
  shows "\<exists>items. fst (me_pins up rnd (Some t) (Fin n) tr) = Items items \<and> int (length items) \<le> 200"
proof -
  let ?args = "\<lparr>endpointBase = board_endpoint (id_board b), accessToken = t,
                 limit = board_limit (Fin n) []\<rparr>"
  let ?rs = "board_outcomes up rnd t (Fin n) 0 [b] [] {} tr'"
  let ?m = "merge_outcomes (Fin n) ?rs [] {}"
  have items: "fst (me_pins up rnd (Some t) (Fin n) tr) = Items (slice0 (fst ?m) (Fin n))"
    by (rule me_pins_items [OF t b])
  from n have room: "\<not> len_ge (length ([] :: pin list)) (Fin n)"
    by (simp add: len_ge_def)
  then have safe: "safeLimit ?args = Fin (min 200 (n - int (length ([] :: pin list))))"
    by (rule board_limit_safe)
  obtain r tr1 where f: "fetchPinsPaged up (rnd 0) ?args tr' = (r, tr1)"
    by (cases "fetchPinsPaged up (rnd 0) ?args tr'")
  have "length (concat (map pins_of ?rs)) \<le> 200"
  proof (cases r)
    case (Inl e)
    with room f show ?thesis by simp
  next
    case (Inr pins)
    with f have "fst (fetch_loop up (rnd 0) ?args [] {} JNull 0 tr') = Inr pins"
      by (simp add: fetchPinsPaged_def)
    from fetch_loop_length [OF this safe] have "length pins \<le> 200" by simp
    with room f Inr show ?thesis by (simp split: prod.splits)
  qed
  moreover have "?m = (fst ?m, snd ?m)" by simp
  from merge_outcomes_subseq [OF this] have "length (fst ?m) \<le> length (concat (map pins_of ?rs))"
    by (auto dest: subseq_length)
  moreover have "length (slice0 (fst ?m) (Fin n)) \<le> length (fst ?m)"
    using slice0_subseq [of "fst ?m" "Fin n"] by (rule subseq_length)
  ultimately have "int (length (slice0 (fst ?m) (Fin n))) \<le> 200" by simp
  with items show ?thesis by blast
qed

lemma requested_limit_default: "requested_limit None = Fin 120" "requested_limit (Some []) = Fin 120"
  by (simp_all add: requested_limit_def js_max_def js_min_def)

lemma requested_limit_numeric:
  "s \<noteq> [] \<Longrightarrow> StringToNumber s = Fin n \<Longrightarrow> requested_limit (Some s) = Fin (min (max n 1) 500)"
  by (simp add: requested_limit_def js_max_def js_min_def)

lemma requested_limit_NaN:
  "s \<noteq> [] \<Longrightarrow> StringToNumber s = NaN \<Longrightarrow> requested_limit (Some s) = NaN"
  by (simp add: requested_limit_def js_max_def js_min_def)

text \<open>
  Claim C8, as the code has it. The fetch of a board is asked for
  \<^verbatim>\<open>Math.min(200, limit - out.length)\<close> pins, the remainder capped at 200, and
  returns no more. The answer holds at most \<open>limit\<close> items. The items are a
  subsequence of the pins that the fetches of the boards returned, board after board
  in the order of the listing; and the pins that one fetch returns are a subsequence
  of the normalized pins of its pages, page after page.
\<close>

theorem me_pins_board_limit_and_order:
  "(\<not> len_ge (length out) (Fin n) \<longrightarrow>
      safeLimit \<lparr>endpointBase = e, accessToken = t, limit = board_limit (Fin n) out\<rparr>
        = Fin (min 200 (n - int (length out)))
      \<and> (\<forall>pins. fst (fetchPinsPaged up r
                       \<lparr>endpointBase = e, accessToken = t, limit = board_limit (Fin n) out\<rparr> tr)
                   = Inr pins
             \<longrightarrow> int (length pins) \<le> min 200 (n - int (length out))))
   \<and> (1 \<le> n \<and> fst (me_pins up rnd tok (Fin n) tr) = Items items \<longrightarrow> int (length items) \<le> n)
   \<and> (t \<noteq> [] \<and> boards_loop up t [] JNull 0 tr = (Inr boards, tr') \<longrightarrow>
        (\<exists>items. fst (me_pins up rnd (Some t) lim tr) = Items items
           \<and> subseq items (concat (map pins_of (board_outcomes up rnd t lim 0 boards [] {} tr')))))
   \<and> (fetchPinsPaged up r args tr = (Inr ps, tr @ new) \<longrightarrow> subseq ps (concat (map page_pins new)))"
proof (intro conjI impI allI)
  let ?args = "\<lparr>endpointBase = e, accessToken = t, limit = board_limit (Fin n) out\<rparr>"
  assume room: "\<not> len_ge (length out) (Fin n)"
  then show safe: "safeLimit ?args = Fin (min 200 (n - int (length out)))"
    by (rule board_limit_safe)
  fix pins assume "fst (fetchPinsPaged up r ?args tr) = Inr pins"
  then have "fst (fetch_loop up r ?args [] {} JNull 0 tr) = Inr pins"
    by (simp add: fetchPinsPaged_def)
  then show "int (length pins) \<le> min 200 (n - int (length out))"
    using safe by (rule fetch_loop_length)
next
  assume a: "1 \<le> n \<and> fst (me_pins up rnd tok (Fin n) tr) = Items items"
  then obtain t' boards' tr'' where
    t: "tok = Some t'" "t' \<noteq> []" "boards_loop up t' [] JNull 0 tr = (Inr boards', tr'')"
    using me_pins_cases by blast
  from a t me_pins_items [OF t(2,3), of rnd "Fin n"] show "int (length items) \<le> n"
    by (auto simp: slice0_length)
next
  assume a: "t \<noteq> [] \<and> boards_loop up t [] JNull 0 tr = (Inr boards, tr')"
  let ?rs = "board_outcomes up rnd t lim 0 boards [] {} tr'"
  let ?m = "merge_outcomes lim ?rs [] {}"
  from a have items: "fst (me_pins up rnd (Some t) lim tr) = Items (slice0 (fst ?m) lim)"
    by (simp add: me_pins_items)
  have "?m = (fst ?m, snd ?m)" by simp
  from merge_outcomes_subseq [OF this] have "subseq (fst ?m) (concat (map pins_of ?rs))"
    by simp
  with slice0_subseq [of "fst ?m" lim] have "subseq (slice0 (fst ?m) lim) (concat (map pins_of ?rs))"
    by (rule subseq_order.trans)
  with items show "\<exists>items. fst (me_pins up rnd (Some t) lim tr) = Items items
           \<and> subseq items (concat (map pins_of ?rs))"
    by blast
next
  assume "fetchPinsPaged up r args tr = (Inr ps, tr @ new)"
  then have "fetch_loop up r args [] {} JNull 0 tr = (Inr ps, tr @ new)"
    by (simp add: fetchPinsPaged_def)
  from fetch_loop_subseq [OF this] obtain zs where
    "ps = slice0 zs (safeLimit args)" "subseq zs (concat (map page_pins new))"
    by auto
  with slice0_subseq [of zs "safeLimit args"] show "subseq ps (concat (map page_pins new))"
    by (auto intro: subseq_order.trans)
qed

text \<open>
  The theorem on the account of three boards with the limit 120 (and the cap, on the
  limit 500), and on the upstream that repeats one page.
\<close>

theorem me_pins_board_limit_and_order_witness:
  "safeLimit \<lparr>endpointBase = board_endpoint ''b1'', accessToken = ''t'',
       limit = board_limit (Fin 500) []\<rparr> = Fin (min 200 (500 - int (length ([] :: pin list))))
   \<and> fst (me_pins account_upstream (\<lambda>i j k. []) (Some ''t'') (Fin 120) [])
       = Items [the_pin ''x'', the_pin ''y'', the_pin ''z'']
   \<and> int (length [the_pin ''x'', the_pin ''y'', the_pin ''z'']) \<le> 120
   \<and> subseq [the_pin ''x'', the_pin ''y'', the_pin ''z'']
        (concat (map pins_of [Inr [the_pin ''x'', the_pin ''y''], Inl (PinterestApiError 500 ''fail''),
           Inr [the_pin ''x'', the_pin ''z'']]))
   \<and> subseq [\<lparr>id_pin = ''p'', title = JStr [], link = JNull, image_pin = JStr ''u''\<rparr>]
        (concat (map page_pins (snd (fetchPinsPaged looping_upstream (\<lambda>i j. []) three_args []))))"
proof -
  let ?up = account_upstream and ?rnd = "\<lambda>i j k. []"
  let ?tr' = "snd (boards_loop ?up ''t'' [] JNull 0 [])"
  let ?xyz = "[the_pin ''x'', the_pin ''y'', the_pin ''z'']"
  let ?p = "[\<lparr>id_pin = ''p'', title = JStr [], link = JNull, image_pin = JStr ''u''\<rparr>]"
  let ?new = "snd (fetchPinsPaged looping_upstream (\<lambda>i j. []) three_args [])"
  have room: "\<not> len_ge (length ([] :: pin list)) (Fin 500)"
    by (simp add: len_ge_def)
  have items: "fst (me_pins ?up ?rnd (Some ''t'') (Fin 120) []) = Items ?xyz"
    by code_simp
  then have h2: "1 \<le> (120::int) \<and> fst (me_pins ?up ?rnd (Some ''t'') (Fin 120) []) = Items ?xyz"
    by simp
  have "fst (boards_loop ?up ''t'' [] JNull 0 []) = Inr account_boards"
    by code_simp
  then have h3: "''t'' \<noteq> [] \<and> boards_loop ?up ''t'' [] JNull 0 [] = (Inr account_boards, ?tr')"
    by (simp add: prod_eq_iff)
  have outcomes: "board_outcomes ?up ?rnd ''t'' (Fin 120) 0 account_boards [] {} ?tr'
       = [Inr [the_pin ''x'', the_pin ''y''], Inl (PinterestApiError 500 ''fail''),
          Inr [the_pin ''x'', the_pin ''z'']]"
    by code_simp
  have "fst (fetchPinsPaged looping_upstream (\<lambda>i j. []) three_args []) = Inr ?p"
    by code_simp
  then have h4: "fetchPinsPaged looping_upstream (\<lambda>i j. []) three_args [] = (Inr ?p, [] @ ?new)"
    by (simp add: prod_eq_iff)
  note T = me_pins_board_limit_and_order [where out = "[]" and n = 500
      and e = "board_endpoint ''b1''" and t = "''t''" and up = ?up and r = "\<lambda>i j. []" and tr = "[]"
      and rnd = ?rnd and tok = "Some ''t''" and items = ?xyz and boards = account_boards
      and tr' = ?tr' and lim = "Fin 120" and args = three_args and ps = ?p and new = ?new]
  note U = me_pins_board_limit_and_order [where out = "[]" and n = 120
      and e = "board_endpoint ''b1''" and t = "''t''" and up = ?up and r = "\<lambda>i j. []" and tr = "[]"
      and rnd = ?rnd and tok = "Some ''t''" and items = ?xyz and boards = account_boards
      and tr' = ?tr' and lim = "Fin 120" and args = three_args and ps = ?p and new = ?new]
  note V = me_pins_board_limit_and_order [where out = "[]" and n = 120
      and e = "board_endpoint ''b1''" and t = "''t''" and up = looping_upstream and r = "\<lambda>i j. []"
      and tr = "[]" and rnd = ?rnd and tok = "Some ''t''" and items = ?xyz and boards = account_boards
      and tr' = ?tr' and lim = "Fin 120" and args = three_args and ps = ?p and new = ?new]
  from T [THEN conjunct1, THEN mp, OF room, THEN conjunct1]
  have 1: "safeLimit \<lparr>endpointBase = board_endpoint ''b1'', accessToken = ''t'',
       limit = board_limit (Fin 500) []\<rparr> = Fin (min 200 (500 - int (length ([] :: pin list))))" .
  from U [THEN conjunct2, THEN conjunct1, THEN mp, OF h2]
  have 2: "int (length ?xyz) \<le> 120" .
  from U [THEN conjunct2, THEN conjunct2, THEN conjunct1, THEN mp, OF h3]
  obtain its where "fst (me_pins ?up ?rnd (Some ''t'') (Fin 120) []) = Items its"
    "subseq its (concat (map pins_of (board_outcomes ?up ?rnd ''t'' (Fin 120) 0 account_boards [] {} ?tr')))"
    by blast
  with items outcomes
  have 3: "subseq ?xyz (concat (map pins_of [Inr [the_pin ''x'', the_pin ''y''],
      Inl (PinterestApiError 500 ''fail''), Inr [the_pin ''x'', the_pin ''z'']]))"
    by simp
  from V [THEN conjunct2, THEN conjunct2, THEN conjunct2, THEN mp, OF h4]
  have 4: "subseq ?p (concat (map page_pins ?new))" .
  from 1 items 2 3 4 show ?thesis by (intro conjI)
qed

text \<open>
  The claim as worded has each board asked for the full remainder. With the limit 500
  and nothing collected the remainder is 500, and the fetch of the first board is
  asked for 200; the account whose one board never runs out of pins gets at most 200
  items for the limit 500.
\<close>

theorem me_pins_board_limit_counterexample:
  "js_minus (Fin 500) (length ([] :: pin list)) = Fin 500
   \<and> board_limit (Fin 500) [] = Fin 200
   \<and> safeLimit \<lparr>endpointBase = board_endpoint ''b1'', accessToken = ''t'',
         limit = board_limit (Fin 500) []\<rparr> = Fin 200
   \<and> (case fst (me_pins endless_upstream (\<lambda>i j k. []) (Some ''t'') (Fin 500) []) of
        Items ps \<Rightarrow> int (length ps) \<le> 200 | Failure f \<Rightarrow> False)"
proof -
  have 1: "js_minus (Fin 500) (length ([] :: pin list)) = Fin 500"
    by (simp add: js_minus_def)
  have 2: "board_limit (Fin 500) [] = Fin 200"
    by (simp add: board_limit_def js_minus_def js_min_def)
  have 3: "safeLimit \<lparr>endpointBase = board_endpoint ''b1'', accessToken = ''t'',
         limit = board_limit (Fin 500) []\<rparr> = Fin 200"
    by (simp add: 2 safeLimit_def or_zero_def js_max_def js_min_def)
  have "fst (boards_loop endless_upstream ''t'' [] JNull 0 []) = Inr [\<lparr>id_board = ''b1'', name = JStr []\<rparr>]"
    by code_simp
  then have b: "boards_loop endless_upstream ''t'' [] JNull 0 []
      = (Inr [\<lparr>id_board = ''b1'', name = JStr []\<rparr>], snd (boards_loop endless_upstream ''t'' [] JNull 0 []))"
    by (simp add: prod_eq_iff)
  have "''t'' \<noteq> []" by simp
  from single_board_at_most_200 [OF this b, of 500 "\<lambda>i j k. []"]
  have 4: "case fst (me_pins endless_upstream (\<lambda>i j k. []) (Some ''t'') (Fin 500) []) of
        Items ps \<Rightarrow> int (length ps) \<le> 200 | Failure f \<Rightarrow> False"
    by auto
  from 1 2 3 4 show ?thesis by (intro conjI)
qed

text \<open>
  Claim C9 says that the limit is clamped to the range from 1 to 500. For the query
  \<^verbatim>\<open>limit=abc\<close> the limit is \<open>NaN\<close>: the handler asks each of the three boards
  for one pin (four requests with the listing) and answers with no item, where the
  limits 1 and 500 give one and three.
\<close>

theorem api_me_pins_non_numeric_limit:
  "requested_limit (Some ''abc'') = NaN
   \<and> fst (api_me_pins account_upstream (\<lambda>i j k. []) (Some ''t'') (Some ''abc'') []) = Items []
   \<and> length (snd (api_me_pins account_upstream (\<lambda>i j k. []) (Some ''t'') (Some ''abc'') [])) = 4
   \<and> fst (api_me_pins account_upstream (\<lambda>i j k. []) (Some ''t'') (Some ''1'') [])
       = Items [the_pin ''x'']
   \<and> fst (api_me_pins account_upstream (\<lambda>i j k. []) (Some ''t'') (Some ''500'') [])
       = Items [the_pin ''x'', the_pin ''y'', the_pin ''z'']"
  by code_simp

subsection \<open>Images of the two normalizers\<close>

text \<open>
  In \<^verbatim>\<open>server/index.js\<close> every record that reaches the output has a non-empty
  string as its image, and its id is the string of a truthy source id, else that image.
  In the current server the image is only known to be truthy.
\<close>

lemma typeof_string: "typeof v = ''string'' \<Longrightarrow> \<exists>s. v = JStr s"
  by (cases v) simp_all

lemma first_string_url_string: "first_string_url vs = Some u \<Longrightarrow> \<exists>s. u = JStr s"
  by (induction vs) (auto simp: has_string_url_def typeof_string split: if_splits)

lemma first_preferred_string: "first_preferred images ks = Some u \<Longrightarrow> \<exists>s. u = JStr s"
  by (induction ks) (auto simp: typeof_string split: if_splits)

lemma pickImageUrlFromPin_v1_string:
  "pickImageUrlFromPin_v1 pin = JNull \<or> (\<exists>s. pickImageUrlFromPin_v1 pin = JStr s)"
proof -
  let ?m = "if truthy (get pin ''media'') then get (get pin ''media'') ''images'' else get pin ''media''"
  let ?a = "if truthy ?m \<and> typeof ?m = ''object'' then first_string_url (Object_values ?m) else None"
  let ?i = "get pin ''images''"
  let ?b = "if truthy ?i \<and> typeof ?i = ''object''
            then (case first_preferred ?i preferredOrder of
                    Some u \<Rightarrow> Some u | None \<Rightarrow> first_string_url (Object_values ?i))
            else None"
  show ?thesis
  proof (cases "\<not> truthy pin \<or> typeof pin \<noteq> ''object''")
    case True
    then show ?thesis by (simp add: pickImageUrlFromPin_v1_def)
  next
    case obj: False
    show ?thesis
    proof (cases ?a)
      case (Some u)
      then have "\<exists>s. u = JStr s"
        by (auto dest: first_string_url_string split: if_splits)
      with obj Some show ?thesis
        by (simp add: pickImageUrlFromPin_v1_def Let_def)
    next
      case a: None
      show ?thesis
      proof (cases ?b)
        case (Some u)
        then have "\<exists>s. u = JStr s"
          by (auto dest: first_string_url_string first_preferred_string split: if_splits option.splits)
        with obj a Some show ?thesis
          by (simp add: pickImageUrlFromPin_v1_def Let_def)
      next
        case b: None
        have "pickImageUrlFromPin_v1 pin =
            (if typeof (get pin ''image_url'') = ''string'' then get pin ''image_url''
             else if typeof (get pin ''thumbnail_url'') = ''string'' then get pin ''thumbnail_url''
             else (case get pin ''link'' of
                     JStr s \<Rightarrow> if is_pinimg_link s then JStr s else JNull
                   | _ \<Rightarrow> JNull))"
          using obj a b by (simp add: pickImageUrlFromPin_v1_def Let_def)
        then show ?thesis
          by (auto dest: typeof_string split: jsval.splits)
      qed
    qed
  qed
qed

lemma map_pins_v1_mem:
  "map_pins_v1 rnd i ps = Inr rs \<Longrightarrow> r \<in> set rs
   \<Longrightarrow> \<exists>p \<in> set ps. \<exists>k. normalize_pin_v1 (rnd k) p = Inr r"
proof (induction ps arbitrary: i rs)
  case Nil
  then show ?case by simp
next
  case (Cons p ps)
  from Cons.prems(1) obtain r0 rs0 where
    s: "normalize_pin_v1 (rnd i) p = Inr r0" "map_pins_v1 rnd (Suc i) ps = Inr rs0" "rs = r0 # rs0"
    by (auto split: sum.splits)
  show ?case
  proof (cases "r = r0")
    case True
    with s(1) show ?thesis by auto
  next
    case False
    with Cons.prems(2) s(3) have "r \<in> set rs0" by simp
    from Cons.IH [OF s(2) this] show ?thesis by auto
  qed
qed

lemma normalizePinsFromPinterest_v1_string_image:
  assumes "normalizePinsFromPinterest_v1 rnd json = Inr out" and "r \<in> set out"
  shows "\<exists>s. image_pin r = JStr s \<and> s \<noteq> []
     \<and> (id_pin r = s
        \<or> (\<exists>p \<in> set (items_of json). truthy (get p ''id'') \<and> id_pin r = js_String (get p ''id'')))"
proof -
  from assms obtain rs where rs: "map_pins_v1 rnd 0 (items_of json) = Inr rs"
    "r \<in> set rs" "truthy (image_pin r)"
    by (auto simp: normalizePinsFromPinterest_v1_def split: sum.splits)
  from map_pins_v1_mem [OF rs(1,2)] obtain p k where
    p: "p \<in> set (items_of json)" "normalize_pin_v1 (rnd k) p = Inr r"
    by blast
  from p(2) have img: "image_pin r = pickImageUrlFromPin_v1 p"
    by (auto simp: normalize_pin_v1_def Let_def split: if_splits)
  with rs(3) pickImageUrlFromPin_v1_string [of p] obtain s where
    s: "image_pin r = JStr s" "s \<noteq> []"
    by auto
  from p(2) s img have "id_pin r = (if truthy (get p ''id'') then js_String (get p ''id'') else s)"
    by (auto simp: normalize_pin_v1_def Let_def split: if_splits)
  with s p(1) show ?thesis by auto
qed

lemma normalizePinsFromPinterest_ids:
  assumes "normalizePinsFromPinterest rnd json = Inr out" and "r \<in> set out"
  shows "truthy (image_pin r)
     \<and> (\<exists>p \<in> set (items_of json). image_pin r = pickImageUrlFromPin p
          \<and> id_pin r = (if truthy (get p ''id'') then js_String (get p ''id'')
                        else js_String (image_pin r)))"
proof (cases "JNull \<in> set (items_of json) \<or> JUndefined \<in> set (items_of json)")
  case True
  with assms(1) show ?thesis by (simp add: normalizePinsFromPinterest_null)
next
  case False
  with assms(1) have "out = map record_of (filter (\<lambda>p. truthy (pickImageUrlFromPin p)) (items_of json))"
    by (simp add: normalizePinsFromPinterest_records)
  with assms(2) obtain p where "p \<in> set (items_of json)" "truthy (pickImageUrlFromPin p)"
    "r = record_of p"
    by auto
  then show ?thesis
    by (auto simp: record_of_def js_or_def)
qed

end
